theory Spec2Isabelle
  imports Complex_Main "HOL-Library.Multiset" "HOL-Library.Sublist"
begin

section \<open>JavaScript strings\<close>

text \<open>
  A JavaScript string is a sequence of UTF-16 code units. The model uses \<open>string\<close>, whose
  characters are 8-bit, read as the code units U+0000 .. U+00FF. Within that range
  \<open>String.prototype.toLowerCase\<close> maps A-Z and the Latin-1 capitals U+00C0 .. U+00DE (without
  the multiplication sign U+00D7) to the letter 32 positions further, and leaves every other
  code unit alone.
\<close>

definition toLowerCase_char :: "char \<Rightarrow> char" where
  "toLowerCase_char c =
     (let n = (of_char c :: nat) in
      if (65 \<le> n \<and> n \<le> 90) \<or> (192 \<le> n \<and> n \<le> 222 \<and> n \<noteq> 215)
      then char_of (n + 32) else c)"

definition toLowerCase :: "string \<Rightarrow> string" where
  "toLowerCase s = map toLowerCase_char s"

text \<open>
  \<open>\s\<close> in a regular expression and \<open>String.prototype.trim\<close> use the same set: the white
  space code points and the line terminators. Below U+0100 these are TAB, LF, VT, FF, CR, SPACE
  and NBSP. The line terminators (what \<open>.\<close> refuses and where \<open>^\<close> and \<open>$\<close> match under
  the \<open>m\<close> flag) are LF and CR.
\<close>

definition is_space :: "char \<Rightarrow> bool" where
  "is_space c \<longleftrightarrow> c \<in> {CHR 0x09, CHR 0x0A, CHR 0x0B, CHR 0x0C, CHR 0x0D, CHR 0x20, CHR 0xA0}"

definition is_line_terminator :: "char \<Rightarrow> bool" where
  "is_line_terminator c \<longleftrightarrow> c = CHR 0x0A \<or> c = CHR 0x0D"

definition trimStart :: "string \<Rightarrow> string" where
  "trimStart s = dropWhile is_space s"

definition trimEnd :: "string \<Rightarrow> string" where
  "trimEnd s = rev (dropWhile is_space (rev s))"

definition trim :: "string \<Rightarrow> string" where
  "trim s = trimEnd (trimStart s)"

section \<open>Severity colours\<close>

text \<open>
  \<open>getSeverityColor\<close> (parseIssue.ts) returns the badge colours of the preview and the PDF;
  \<open>getSeverityColorHex\<close> and \<open>getSeverityFontColor\<close> (generateDocx) return the colours of
  the DOCX tables. In each, \<open>(severity || "")\<close> is the string itself and the \<open>switch\<close>
  compares the lower-cased string with each label in turn. The field \<open>text\<close> of the
  TypeScript interface \<open>SeverityColor\<close> is called \<open>text_colour\<close> here.
\<close>

record SeverityColor =
  bg :: string
  text_colour :: string

definition getSeverityColor :: "string \<Rightarrow> SeverityColor" where
  "getSeverityColor severity =
     (let s = toLowerCase severity in
      if s = ''critical'' then \<lparr>bg = ''#8b0000'', text_colour = ''#ffffff''\<rparr>
      else if s = ''high'' then \<lparr>bg = ''#e74c3c'', text_colour = ''#ffffff''\<rparr>
      else if s = ''medium'' then \<lparr>bg = ''#fd7e14'', text_colour = ''#ffffff''\<rparr>
      else if s = ''low'' then \<lparr>bg = ''#a8d08d'', text_colour = ''#333333''\<rparr>
      else if s = ''info'' \<or> s = ''informational''
        then \<lparr>bg = ''#17a2b8'', text_colour = ''#ffffff''\<rparr>
      else \<lparr>bg = ''#6c757d'', text_colour = ''#ffffff''\<rparr>)"

definition getSeverityColorHex :: "string \<Rightarrow> string" where
  "getSeverityColorHex severity =
     (let s = toLowerCase severity in
      if s = ''critical'' then ''8B0000''
      else if s = ''high'' then ''E74C3C''
      else if s = ''medium'' then ''FD7E14''
      else if s = ''low'' then ''A8D08D''
      else if s = ''info'' \<or> s = ''informational'' then ''17A2B8''
      else ''6C757D'')"

definition getSeverityFontColor :: "string \<Rightarrow> string" where
  "getSeverityFontColor severity =
     (let s = toLowerCase severity in
      if s = ''low'' then ''333333'' else ''FFFFFF'')"

text \<open>The recognised severity labels, in the order of the \<open>switch\<close>.\<close>

definition severity_labels :: "string list" where
  "severity_labels = [''critical'', ''high'', ''medium'', ''low'', ''info'', ''informational'']"

text \<open>
  A colour \<open>#rrggbb\<close> is dark when the mean of its three channels is below the middle of
  the range, and light otherwise. A DOCX colour \<open>RRGGBB\<close> names the CSS colour
  \<open>#rrggbb\<close>.
\<close>

definition hex_digit :: "char \<Rightarrow> nat" where
  "hex_digit c =
     (let n = (of_char c :: nat) in
      if 48 \<le> n \<and> n \<le> 57 then n - 48
      else if 97 \<le> n \<and> n \<le> 102 then n - 87
      else if 65 \<le> n \<and> n \<le> 70 then n - 55
      else 0)"

fun channels :: "string \<Rightarrow> nat list" where
  "channels (a # b # rest) = (16 * hex_digit a + hex_digit b) # channels rest"
| "channels _ = []"

definition dark_colour :: "string \<Rightarrow> bool" where
  "dark_colour c \<longleftrightarrow> sum_list (channels (tl c)) < 3 * 128"

definition light_colour :: "string \<Rightarrow> bool" where
  "light_colour c \<longleftrightarrow> 3 * 128 \<le> sum_list (channels (tl c))"

definition css_of_docx :: "string \<Rightarrow> string" where
  "css_of_docx h = CHR ''#'' # toLowerCase h"

section \<open>The translation helper\<close>

text \<open>
  \<open>translateText\<close> is an \<open>async\<close> function: it returns a promise that is fulfilled with a
  string or rejected with an error. The model returns \<open>Inr\<close> of the string or \<open>Inl\<close> of the
  error. \<open>translationAvailable\<close> is the module constant \<open>Boolean(apiKey)\<close>; it is a parameter,
  as is the outcome of the call to the chat completion service: \<open>Inl\<close> when the request
  rejects, else \<open>Inr\<close> of \<open>response.choices[0]?.message?.content\<close>, which is \<open>None\<close> when the
  optional chain yields \<open>undefined\<close> or \<open>null\<close>. \<open>getClient\<close> throws only without an API key,
  which \<open>translationAvailable\<close> has excluded where it is called; the \<open>catch\<close> block logs and
  rethrows.
\<close>

datatype js_error = Error string

definition translateText ::
  "bool \<Rightarrow> (string \<Rightarrow> string \<Rightarrow> js_error + string option) \<Rightarrow> string \<Rightarrow> string
     \<Rightarrow> js_error + string" where
  "translateText translationAvailable create text targetLanguage =
     (if \<not> translationAvailable then Inr text
      else if text = [] \<or> trim text = [] then Inr text
      else if targetLanguage = [] \<or> trim targetLanguage = []
        then Inl (Error ''Target language is required'')
      else (case create text targetLanguage of
              Inl e \<Rightarrow> Inl e
            | Inr content \<Rightarrow>
                (let translatedText = (case content of None \<Rightarrow> [] | Some c \<Rightarrow> trim c) in
                 if translatedText = [] then Inl (Error ''No translation received from OpenAI'')
                 else Inr translatedText)))"

section \<open>Issue records\<close>

text \<open>
  The interfaces of types.ts. \<open>IssueSnapshot\<close> is \<open>Omit<Issue, "_id">\<close>, what \<open>parseIssue\<close>
  returns; \<open>Issue\<close> adds the runtime identifier \<open>_id\<close>, here \<open>issue_id\<close>. The fields of
  \<open>ExtraRow\<close> and \<open>GroupedCategory\<close> carry a prefix where their names are those of fields of
  \<open>Issue\<close>.
\<close>

record ExtraRow =
  row_title :: string
  row_severity :: string

record IssueSnapshot =
  title :: string
  overallRisk :: string
  impact :: string
  exploitability :: string
  findingId :: string
  component :: string
  category :: string
  status :: string
  impactDetails :: string
  description :: string
  evidence :: string
  codeExample :: string
  codeLanguage :: string
  exampleScenario :: string
  recommendation :: string
  extraRows :: "ExtraRow list"

record Issue = IssueSnapshot +
  issue_id :: int

record GroupedCategory =
  group_category :: string
  group_issues :: "Issue list"

section \<open>Array.prototype.sort\<close>

text \<open>
  A comparator returns a number, which may be \<open>NaN\<close>. \<open>Array.prototype.sort\<close> reads a
  positive result as "the first argument goes after the second" and reads \<open>NaN\<close> as \<open>+0\<close>.
  The sort is stable (ECMAScript 2019): for a consistent comparator its result is the one
  arrangement that is ordered and keeps equal elements in their original order, which the
  insertion sort below computes. Each element is inserted into the sorted rest of the array
  and moves behind exactly the elements it compares greater than at the front of that rest.
  For a comparator that is not consistent ECMAScript leaves the order to the implementation.
  The engines sort with other algorithms than this insertion sort, and on such a comparator
  they can arrange an array of four or more elements differently from it and from one
  another; the result is a permutation of the array in every implementation. No statement
  below about an order rests on the arrangement for such a comparator: the orders are stated
  for consistent comparators, and the example of an inherited key has two issues, whose one
  comparison is \<open>NaN\<close> and which every stable sort leaves as they are.
\<close>

datatype jsnumber = Num int | NaN

fun is_positive :: "jsnumber \<Rightarrow> bool" where
  "is_positive (Num n) = (0 < n)"
| "is_positive NaN = False"

fun sort_insert :: "('a \<Rightarrow> 'a \<Rightarrow> jsnumber) \<Rightarrow> 'a \<Rightarrow> 'a list \<Rightarrow> 'a list" where
  "sort_insert comparefn x [] = [x]"
| "sort_insert comparefn x (y # ys) =
     (if is_positive (comparefn x y) then y # sort_insert comparefn x ys else x # y # ys)"

definition array_sort :: "('a \<Rightarrow> 'a \<Rightarrow> jsnumber) \<Rightarrow> 'a list \<Rightarrow> 'a list" where
  "array_sort comparefn xs = foldr (sort_insert comparefn) xs []"

section \<open>Grouping by category\<close>

text \<open>
  \<open>SEVERITY_ORDER\<close> is an object literal, so \<open>SEVERITY_ORDER[s]\<close> is a property lookup that
  follows the prototype chain: for a key that is not one of the six own properties it yields
  the member of \<open>Object.prototype\<close> of that name, and \<open>undefined\<close> (here \<open>None\<close>) only when
  there is none. \<open>s\<close> is lower-cased, and the members of \<open>Object.prototype\<close> whose names have
  no capital letter are \<open>constructor\<close> and \<open>__proto__\<close>; both are objects, not numbers.
  \<open>severityRank\<close> returns what the lookup yields unless it is \<open>undefined\<close>. Subtracting in
  the comparator converts an object to \<open>NaN\<close>.
\<close>

datatype jsvalue = Number int | Object_prototype_member

definition SEVERITY_ORDER :: "string \<Rightarrow> jsvalue option" where
  "SEVERITY_ORDER s =
     (if s = ''critical'' then Some (Number 0)
      else if s = ''high'' then Some (Number 1)
      else if s = ''medium'' then Some (Number 2)
      else if s = ''low'' then Some (Number 3)
      else if s = ''info'' then Some (Number 4)
      else if s = ''informational'' then Some (Number 4)
      else if s = ''constructor'' \<or> s = ''__proto__'' then Some Object_prototype_member
      else None)"

definition severityRank :: "string \<Rightarrow> jsvalue" where
  "severityRank severity =
     (let s = toLowerCase severity in
      case SEVERITY_ORDER s of Some v \<Rightarrow> v | None \<Rightarrow> Number 5)"

fun js_minus :: "jsvalue \<Rightarrow> jsvalue \<Rightarrow> jsnumber" where
  "js_minus (Number a) (Number b) = Num (a - b)"
| "js_minus _ _ = NaN"

text \<open>
  The \<open>Map\<close> of \<open>groupByCategory\<close> keeps its keys in insertion order: an association list.
  \<open>map_push\<close> is one turn of the loop: \<open>map.set(cat, [])\<close> for a new key, at the end, and
  \<open>map.get(cat).push(issue)\<close>. \<open>localeCompare\<close> is the runtime's collation; it is a
  parameter of the model.
\<close>

definition category_key :: "Issue \<Rightarrow> string" where
  "category_key issue = (if category issue = [] then ''Uncategorized'' else category issue)"

fun map_push :: "string \<Rightarrow> Issue \<Rightarrow> (string \<times> Issue list) list \<Rightarrow> (string \<times> Issue list) list" where
  "map_push cat issue [] = [(cat, [issue])]"
| "map_push cat issue ((k, items) # m) =
     (if k = cat then (k, items @ [issue]) # m else (k, items) # map_push cat issue m)"

definition category_map :: "Issue list \<Rightarrow> (string \<times> Issue list) list" where
  "category_map issues = fold (\<lambda>issue m. map_push (category_key issue) issue m) issues []"

definition by_severity :: "Issue \<Rightarrow> Issue \<Rightarrow> jsnumber" where
  "by_severity a b = js_minus (severityRank (overallRisk a)) (severityRank (overallRisk b))"

definition groupByCategory :: "(string \<Rightarrow> string \<Rightarrow> int) \<Rightarrow> Issue list \<Rightarrow> GroupedCategory list" where
  "groupByCategory localeCompare issues =
     map (\<lambda>(cat, items). \<lparr>group_category = cat, group_issues = array_sort by_severity items\<rparr>)
       (array_sort (\<lambda>(a, _) (b, _). Num (localeCompare a b)) (category_map issues))"

text \<open>
  The ranks as C1 lists them: the six labels, and 5 for any other string.
\<close>

definition rank_of :: "string \<Rightarrow> int" where
  "rank_of severity =
     (let s = toLowerCase severity in
      if s = ''critical'' then 0
      else if s = ''high'' then 1
      else if s = ''medium'' then 2
      else if s = ''low'' then 3
      else if s = ''info'' \<or> s = ''informational'' then 4
      else 5)"

definition inherited_key :: "string \<Rightarrow> bool" where
  "inherited_key severity \<longleftrightarrow>
     toLowerCase severity = ''constructor'' \<or> toLowerCase severity = ''__proto__''"

text \<open>
  A comparator is consistent when it never orders a pair both ways and "not after" is
  transitive; \<open>localeCompare\<close> of any locale is.
\<close>

definition consistent_comparator :: "(string \<Rightarrow> string \<Rightarrow> int) \<Rightarrow> bool" where
  "consistent_comparator cmp \<longleftrightarrow>
     (\<forall>a b. 0 < cmp a b \<longrightarrow> cmp b a \<le> 0)
     \<and> (\<forall>a b c. cmp a b \<le> 0 \<longrightarrow> cmp b c \<le> 0 \<longrightarrow> cmp a c \<le> 0)"

text \<open>
  The issue that \<open>addNewPage\<close> (App.tsx) creates for a category, and a comparator by code
  unit, used where an example needs issues and a collation.
\<close>

definition newIssue :: "int \<Rightarrow> string \<Rightarrow> Issue" where
  "newIssue n cat =
     \<lparr>title = [], overallRisk = ''Medium'', impact = ''Medium'', exploitability = ''Medium'',
      findingId = [], component = [], category = cat, status = ''New'', impactDetails = [],
      description = [], evidence = [], codeExample = [], codeLanguage = [],
      exampleScenario = [], recommendation = [], extraRows = [], issue_id = n\<rparr>"

fun compare_code_units :: "string \<Rightarrow> string \<Rightarrow> int" where
  "compare_code_units [] [] = 0"
| "compare_code_units [] (y # ys) = - 1"
| "compare_code_units (x # xs) [] = 1"
| "compare_code_units (x # xs) (y # ys) =
     (if (of_char x :: nat) < of_char y then - 1
      else if (of_char y :: nat) < of_char x then 1
      else compare_code_units xs ys)"

section \<open>Reindexing the finding identifiers\<close>

text \<open>
  \<open>reindexFindingIds\<close> (App.tsx) reads the issue list of the component state and the answer
  of \<open>window.prompt\<close> (\<open>None\<close> when the user cancels) and sets the new issue list.
  \<open>prefix_match\<close> is \<open>findingId.match(/^([A-Za-z]+)-/)\<close>: the longest run of letters at the
  start, when it is not empty and a hyphen follows. \<open>String_of_nat\<close> is \<open>String(num)\<close> for
  a non-negative integer and \<open>padStart\<close> is \<open>padStart(targetLength, "0")\<close> with a
  one-character filler. \<open>idMap\<close> is a \<open>Map\<close> from identifiers to strings: \<open>idMap_calls\<close>
  lists the calls of \<open>idMap.set\<close> in order, and a later call for the same key replaces the
  value of an earlier one.
\<close>

definition is_ascii_letter :: "char \<Rightarrow> bool" where
  "is_ascii_letter c =
     (let n = (of_char c :: nat) in (65 \<le> n \<and> n \<le> 90) \<or> (97 \<le> n \<and> n \<le> 122))"

definition prefix_match :: "string \<Rightarrow> string option" where
  "prefix_match s =
     (let letters = takeWhile is_ascii_letter s; rest = dropWhile is_ascii_letter s in
      if letters \<noteq> [] \<and> take 1 rest = ''-'' then Some letters else None)"

fun detect_prefix :: "Issue list \<Rightarrow> string" where
  "detect_prefix [] = ''ABC''"
| "detect_prefix (iss # rest) =
     (if findingId iss \<noteq> [] then
        (case prefix_match (findingId iss) of Some m \<Rightarrow> m | None \<Rightarrow> detect_prefix rest)
      else detect_prefix rest)"

definition digit_char :: "nat \<Rightarrow> char" where
  "digit_char d = char_of (48 + d)"

fun String_of_nat :: "nat \<Rightarrow> string" where
  "String_of_nat n =
     (if n < 10 then [digit_char n] else String_of_nat (n div 10) @ [digit_char (n mod 10)])"

definition padStart :: "nat \<Rightarrow> char \<Rightarrow> string \<Rightarrow> string" where
  "padStart targetLength c s = replicate (targetLength - length s) c @ s"

definition idMap_calls :: "string \<Rightarrow> GroupedCategory list \<Rightarrow> (int \<times> string) list" where
  "idMap_calls pfx groups =
     concat (map (\<lambda>(catIndex, group).
        map (\<lambda>(issueIndex, iss).
          (let majorNum = catIndex * 1000;
               minorNum = issueIndex + 1;
               num = majorNum + minorNum;
               padded = padStart 4 (CHR ''0'') (String_of_nat num)
           in (issue_id iss, pfx @ ''-'' @ padded)))
          (enumerate 0 (group_issues group)))
        (enumerate 0 groups))"

definition idMap :: "string \<Rightarrow> GroupedCategory list \<Rightarrow> int \<Rightarrow> string option" where
  "idMap pfx groups = map_of (rev (idMap_calls pfx groups))"

definition reindexFindingIds ::
  "(string \<Rightarrow> string \<Rightarrow> int) \<Rightarrow> string option \<Rightarrow> Issue list \<Rightarrow> Issue list" where
  "reindexFindingIds localeCompare prompt_answer issues =
     (case prompt_answer of
        None \<Rightarrow> issues
      | Some input \<Rightarrow>
          (let defaultPrefix = detect_prefix issues;
               pfx = (if trim input = [] then defaultPrefix else trim input);
               groups = groupByCategory localeCompare issues
           in map (\<lambda>iss. case idMap pfx groups (issue_id iss) of
                            Some v \<Rightarrow> iss\<lparr>findingId := v\<rparr>
                          | None \<Rightarrow> iss) issues))"




section \<open>Slicing a canvas into PDF pages\<close>

text \<open>
  The constants of generatePdf.ts, in millimetres. \<open>canvas.width\<close> and \<open>canvas.height\<close> are
  non-negative integers. The products and quotients of \<open>addCanvasToPdf\<close> are JavaScript
  numbers, that is doubles. What the model keeps of them is the branch that the comparison
  \<open>totalImgHeightMm <= USABLE_HEIGHT\<close> takes and the integer \<open>stripHeightPx\<close>, and it computes
  both from exact rationals. A division by zero yields what JavaScript yields: \<open>Infinity\<close> for
  a positive dividend and \<open>NaN\<close> for \<open>0 / 0\<close>. Neither is \<open><=\<close> a number; \<open>Infinity\<close>
  exceeds every number and \<open>NaN\<close> exceeds none.

  The double \<open>totalImgHeightMm\<close> is in general not the exact quotient: the two differ by the
  rounding of two divisions. They lie on the same side of \<open>USABLE_HEIGHT\<close>: the exact quotient
  is \<open>186 * canvasHeight / canvasWidth\<close>, which equals 271 only when \<open>canvasWidth\<close> is a
  multiple of 186, where both divisions are exact, and is otherwise at least \<open>1 / canvasWidth\<close>
  away from 271, far more than the rounding error for any canvas a browser can allocate.
  In the same way \<open>USABLE_HEIGHT * pxPerMm\<close> is an integer only when 186 divides the width,
  where the quotient and the product are exact, and otherwise lies at least 1/186 away from
  the integers, so that \<open>Math.floor\<close> of the double is the floor of the exact product.

  The heights in millimetres that are handed to \<open>pdf.addImage\<close> (\<open>totalImgHeightMm\<close> and
  \<open>thisStripMm\<close>) are doubles too, and there the rounding does show: the value drawn can
  differ from the exact quotient in the last place. These heights are not part of the model.
\<close>

datatype js_quotient = Finite rat | Infinity | Not_a_Number

definition js_divide :: "rat \<Rightarrow> rat \<Rightarrow> js_quotient" where
  "js_divide a b =
     (if b \<noteq> 0 then Finite (a / b) else if a = 0 then Not_a_Number else Infinity)"

fun at_most :: "js_quotient \<Rightarrow> rat \<Rightarrow> bool" where
  "at_most (Finite x) y = (x \<le> y)"
| "at_most Infinity y = False"
| "at_most Not_a_Number y = False"

fun exceeds :: "js_quotient \<Rightarrow> rat \<Rightarrow> bool" where
  "exceeds (Finite x) y = (y < x)"
| "exceeds Infinity y = True"
| "exceeds Not_a_Number y = False"

definition A4_WIDTH_MM :: nat where "A4_WIDTH_MM = 210"
definition A4_HEIGHT_MM :: nat where "A4_HEIGHT_MM = 297"
definition MARGIN_TOP :: nat where "MARGIN_TOP = 12"
definition MARGIN_BOTTOM :: nat where "MARGIN_BOTTOM = 14"
definition MARGIN_LEFT :: nat where "MARGIN_LEFT = 12"
definition MARGIN_RIGHT :: nat where "MARGIN_RIGHT = 12"

definition USABLE_WIDTH :: nat where
  "USABLE_WIDTH = A4_WIDTH_MM - MARGIN_LEFT - MARGIN_RIGHT"

definition USABLE_HEIGHT :: nat where
  "USABLE_HEIGHT = A4_HEIGHT_MM - MARGIN_TOP - MARGIN_BOTTOM"

text \<open>
  \<open>renderIssuePage\<close> renders a container that is \<open>RENDER_WIDTH_PX\<close> CSS pixels wide with
  html2canvas at the scale \<open>SCALE\<close>, and the canvas it returns is the one argument that
  \<open>addCanvasToPdf\<close> is called with. html2canvas is not among the sources; a canvas it
  renders is as wide as the element times the scale.
\<close>

definition RENDER_WIDTH_PX :: nat where "RENDER_WIDTH_PX = 794"
definition SCALE :: nat where "SCALE = 2"

text \<open>
  An image placed by \<open>pdf.addImage\<close> at \<open>(MARGIN_LEFT, MARGIN_TOP)\<close>, \<open>imgWidthMm\<close> wide, is
  recorded by the rows of the canvas it shows: from \<open>src_y\<close>, \<open>src_height\<close> of them, at full
  width. A document is the list of its pages; a new \<open>jsPDF\<close> has one page, \<open>addPage\<close>
  appends a page and makes it the current one, and \<open>addImage\<close> draws on the current page.
  jsPDF is not among the sources; its two calls are modelled as succeeding.
\<close>

record placed_image =
  src_y :: nat
  src_height :: nat

type_synonym pdf_document = "placed_image list list"

definition addPage :: "pdf_document \<Rightarrow> pdf_document" where
  "addPage pdf = pdf @ [[]]"

definition addImage :: "placed_image \<Rightarrow> pdf_document \<Rightarrow> pdf_document" where
  "addImage img pdf = butlast pdf @ [last pdf @ [img]]"

definition pxPerMm :: "nat \<Rightarrow> rat" where
  "pxPerMm canvasWidth = of_nat canvasWidth / of_nat USABLE_WIDTH"

definition totalImgHeightMm :: "nat \<Rightarrow> nat \<Rightarrow> js_quotient" where
  "totalImgHeightMm canvasWidth canvasHeight = js_divide (of_nat canvasHeight) (pxPerMm canvasWidth)"

definition stripHeightPx :: "nat \<Rightarrow> nat" where
  "stripHeightPx canvasWidth = nat \<lfloor>of_nat USABLE_HEIGHT * pxPerMm canvasWidth\<rfloor>"

text \<open>
  \<open>ctx.drawImage(canvas, ...)\<close> checks its image argument before it draws: a source canvas
  whose width or height is 0 makes it throw an \<open>InvalidStateError\<close>. The source is the
  canvas handed to \<open>addCanvasToPdf\<close>. An empty source rectangle does not throw; nothing is
  drawn then. The other calls on the strip canvas (\<open>createElement\<close>, \<open>getContext\<close>,
  \<open>fillRect\<close>, \<open>toDataURL\<close>) do not throw.
\<close>

datatype DOMException = InvalidStateError

definition drawImage :: "nat \<Rightarrow> nat \<Rightarrow> DOMException option" where
  "drawImage image_width image_height =
     (if image_width = 0 \<or> image_height = 0 then Some InvalidStateError else None)"

lemma USABLE_values: "USABLE_WIDTH = 186" "USABLE_HEIGHT = 271"
  by (simp_all add: USABLE_WIDTH_def USABLE_HEIGHT_def A4_WIDTH_MM_def A4_HEIGHT_MM_def
      MARGIN_TOP_def MARGIN_BOTTOM_def MARGIN_LEFT_def MARGIN_RIGHT_def)

lemma stripHeightPx_pos: "0 < w \<Longrightarrow> 0 < stripHeightPx w"
proof -
  assume w: "0 < w"
  have "(1::rat) \<le> 271 * (of_nat w / 186)"
  proof -
    have "(1::rat) \<le> of_nat w" using w by simp
    then show ?thesis by simp
  qed
  then have "1 \<le> \<lfloor>of_nat USABLE_HEIGHT * pxPerMm w\<rfloor>"
    by (simp add: pxPerMm_def USABLE_values le_floor_iff)
  then show ?thesis by (simp add: stripHeightPx_def)
qed

text \<open>
  The \<open>while\<close> loop of the second branch. The state is \<open>srcY\<close>, \<open>pageIndex\<close> and the
  document. An exception thrown by \<open>drawImage\<close> leaves the loop and the function; it is
  thrown before the page of the strip is added. The loop ends on every canvas: a strip of a
  canvas that \<open>drawImage\<close> accepts has at least one row.
\<close>

function slice_loop ::
  "nat \<Rightarrow> nat \<Rightarrow> bool \<Rightarrow> nat \<Rightarrow> nat \<Rightarrow> pdf_document \<Rightarrow> DOMException + nat \<times> pdf_document" where
  "slice_loop canvasWidth canvasHeight isFirstPage srcY pageIndex pdf =
     (if srcY < canvasHeight then
        (let remainingPx = canvasHeight - srcY;
             thisStripPx = min (stripHeightPx canvasWidth) remainingPx
         in case drawImage canvasWidth canvasHeight of
              Some e \<Rightarrow> Inl e
            | None \<Rightarrow>
               (let pdf1 = (if \<not> isFirstPage \<or> pageIndex > 0 then addPage pdf else pdf);
                    pdf2 = addImage \<lparr>src_y = srcY, src_height = thisStripPx\<rparr> pdf1
                in slice_loop canvasWidth canvasHeight isFirstPage (srcY + thisStripPx) (pageIndex + 1) pdf2))
      else Inr (pageIndex, pdf))"
  by pat_completeness auto

termination
proof (relation "measure (\<lambda>(canvasWidth, canvasHeight, isFirstPage, srcY, pageIndex, pdf). canvasHeight - srcY)")
  show "wf (measure (\<lambda>(canvasWidth, canvasHeight, isFirstPage, srcY, pageIndex, pdf). canvasHeight - srcY))"
    by simp
next
  fix canvasWidth canvasHeight :: nat and isFirstPage :: bool and srcY pageIndex :: nat
    and pdf :: pdf_document and remainingPx thisStripPx pdf1 pdf2
  assume "srcY < canvasHeight" and r: "remainingPx = canvasHeight - srcY"
    and t: "thisStripPx = min (stripHeightPx canvasWidth) remainingPx"
    and d: "drawImage canvasWidth canvasHeight = None"
  from d have "0 < canvasWidth" by (simp add: drawImage_def split: if_splits)
  then have "0 < stripHeightPx canvasWidth" by (rule stripHeightPx_pos)
  with \<open>srcY < canvasHeight\<close> r t
  show "((canvasWidth, canvasHeight, isFirstPage, srcY + thisStripPx, pageIndex + 1, pdf2),
         canvasWidth, canvasHeight, isFirstPage, srcY, pageIndex, pdf)
        \<in> measure (\<lambda>(canvasWidth, canvasHeight, isFirstPage, srcY, pageIndex, pdf). canvasHeight - srcY)"
    by simp
qed


declare slice_loop.simps [simp del]

definition addCanvasToPdf ::
  "pdf_document \<Rightarrow> nat \<Rightarrow> nat \<Rightarrow> bool \<Rightarrow> DOMException + nat \<times> pdf_document" where
  "addCanvasToPdf pdf canvasWidth canvasHeight isFirstPage =
     (if at_most (totalImgHeightMm canvasWidth canvasHeight) (of_nat USABLE_HEIGHT) then
        (let pdf1 = (if \<not> isFirstPage then addPage pdf else pdf)
         in Inr (1, addImage \<lparr>src_y = 0, src_height = canvasHeight\<rparr> pdf1))
      else slice_loop canvasWidth canvasHeight isFirstPage 0 0 pdf)"

text \<open>
  Strips tile the rows from \<open>a\<close> up to \<open>b\<close> when each starts where the one before it ends,
  the first starts at \<open>a\<close>, the last ends at \<open>b\<close>, and none is empty.
\<close>

fun tiles :: "nat \<Rightarrow> nat \<Rightarrow> placed_image list \<Rightarrow> bool" where
  "tiles a b [] = (a = b)"
| "tiles a b (s # ss) = (src_y s = a \<and> 0 < src_height s \<and> tiles (a + src_height s) b ss)"

text \<open>
  The pages after the strips of a list have been placed as the loop places them, the
  \<open>k\<close>-th strip of a canvas on a new page unless it is the first strip of the first canvas.
\<close>

fun lay :: "bool \<Rightarrow> nat \<Rightarrow> pdf_document \<Rightarrow> placed_image list \<Rightarrow> pdf_document" where
  "lay isFirstPage k pdf [] = pdf"
| "lay isFirstPage k pdf (s # ss) =
     lay isFirstPage (k + 1) (addImage s (if \<not> isFirstPage \<or> k > 0 then addPage pdf else pdf)) ss"


section \<open>Regular expressions of the parser\<close>

text \<open>
  Each regular expression of parseIssue.ts is modelled by the function that the backtracking
  matcher computes for it. A pattern is tried at a position of the input, that is on the
  rest of the input from there, and yields the captured text and the rest of the input
  behind the match. \<open>strip_prefix\<close> matches a literal.
\<close>

definition strip_prefix :: "string \<Rightarrow> string \<Rightarrow> string option" where
  "strip_prefix lit s = (if take (length lit) s = lit then Some (drop (length lit) s) else None)"

text \<open>
  \<open>\s*(.+)$\<close> with the flag \<open>m\<close>. The greedy \<open>\s*\<close> takes the white space ahead, line
  terminators included, and \<open>(.+)\<close> the rest of the line that starts there. When only white
  space is left up to the end of the input, the matcher backtracks: \<open>\s*\<close> gives white
  space back until \<open>(.+)\<close> finds a character that is not a line terminator, and the capture
  is that one character. There is no match when nothing but line terminators is left.
\<close>

definition value_after :: "string \<Rightarrow> (string \<times> string) option" where
  "value_after s =
     (let after = dropWhile is_space s in
      if after \<noteq> [] then
        Some (takeWhile (\<lambda>c. \<not> is_line_terminator c) after,
              dropWhile (\<lambda>c. \<not> is_line_terminator c) after)
      else
        (let kept = rev (dropWhile is_line_terminator (rev s)) in
         if kept = [] then None else Some ([last kept], drop (length kept) s)))"

text \<open>
  \<open>String.prototype.match\<close> without the flag \<open>g\<close> returns the first match: the matcher
  tries the positions from left to right. With \<open>^\<close> and the flag \<open>m\<close> a pattern can match
  only at the start of the input or behind a line terminator (\<open>search_lines\<close>); without
  \<open>^\<close> at every position (\<open>search_all\<close>).
\<close>

fun search_lines :: "(string \<Rightarrow> 'a option) \<Rightarrow> bool \<Rightarrow> string \<Rightarrow> 'a option" where
  "search_lines p at_start [] = (if at_start then p [] else None)"
| "search_lines p at_start (c # cs) =
     (case (if at_start then p (c # cs) else None) of
        Some v \<Rightarrow> Some v
      | None \<Rightarrow> search_lines p (is_line_terminator c) cs)"

fun search_all :: "(string \<Rightarrow> 'a option) \<Rightarrow> string \<Rightarrow> 'a option" where
  "search_all p [] = p []"
| "search_all p (c # cs) =
     (case p (c # cs) of Some v \<Rightarrow> Some v | None \<Rightarrow> search_all p cs)"

text \<open>
  \<open>/^#\s+Issue title:\s*(.+)$/m\<close>, the metadata patterns \<open>/^Key:\s*(.+)$/m\<close> and
  \<open>/Evidence:\s*(.+)$/m\<close> at a position.
\<close>

definition title_pattern :: "string \<Rightarrow> (string \<times> string) option" where
  "title_pattern s =
     (case s of
        [] \<Rightarrow> None
      | c # r \<Rightarrow>
          if c \<noteq> CHR ''#'' then None
          else (let r' = dropWhile is_space r in
                if length r' = length r then None
                else (case strip_prefix ''Issue title:'' r' of
                        None \<Rightarrow> None
                      | Some rest \<Rightarrow> value_after rest)))"

definition meta_pattern :: "string \<Rightarrow> string \<Rightarrow> (string \<times> string) option" where
  "meta_pattern key s =
     (case strip_prefix key s of None \<Rightarrow> None | Some rest \<Rightarrow> value_after rest)"

text \<open>
  \<open>/^Additional Issue:\s*(.+)$/gm\<close> in the \<open>exec\<close> loop: each search starts where the
  match before it ended, which is behind a captured character and so not at the start of a
  line. \<open>additional_captures\<close> lists the captures.
\<close>

function additional_captures :: "bool \<Rightarrow> string \<Rightarrow> string list" where
  "additional_captures at_start [] = []"
| "additional_captures at_start (c # cs) =
     (case (if at_start then meta_pattern ''Additional Issue:'' (c # cs) else None) of
        Some (captured, rest) \<Rightarrow> captured # additional_captures False rest
      | None \<Rightarrow> additional_captures (is_line_terminator c) cs)"
  by pat_completeness auto

lemma value_after_shorter:
  assumes "value_after s = Some (captured, rest)"
  shows "length rest \<le> length s"
proof (cases "dropWhile is_space s = []")
  case True
  with assms show ?thesis
    by (auto simp: value_after_def Let_def split: if_splits)
next
  case False
  with assms have "rest = dropWhile (\<lambda>c. \<not> is_line_terminator c) (dropWhile is_space s)"
    by (auto simp: value_after_def Let_def)
  moreover have "length (dropWhile (\<lambda>c. \<not> is_line_terminator c) (dropWhile is_space s))
      \<le> length (dropWhile is_space s)"
    by (rule length_dropWhile_le)
  moreover have "length (dropWhile is_space s) \<le> length s"
    by (rule length_dropWhile_le)
  ultimately show ?thesis by simp
qed

lemma meta_pattern_shorter:
  assumes "meta_pattern key s = Some (captured, rest)" "key \<noteq> []"
  shows "length rest < length s"
proof -
  from assms(1) obtain r where r: "strip_prefix key s = Some r" and v: "value_after r = Some (captured, rest)"
    by (auto simp: meta_pattern_def split: option.splits)
  from r have t: "take (length key) s = key" and d: "r = drop (length key) s"
    by (auto simp: strip_prefix_def split: if_splits)
  have "length (take (length key) s) = length key"
    by (simp only: t)
  then have "length key \<le> length s"
    by simp
  moreover from d have "length r = length s - length key"
    by simp
  moreover from assms(2) have "0 < length key"
    by simp
  ultimately have "length r < length s"
    by linarith
  with value_after_shorter [OF v] show ?thesis by linarith
qed

termination additional_captures
proof (relation "measure (\<lambda>(at_start, s). length s)")
  show "wf (measure (\<lambda>(at_start, s). length s))" by simp
next
  fix at_start c cs x2 x y
  assume "(if at_start then meta_pattern ''Additional Issue:'' (c # cs) else None) = Some x2"
    and "(x, y) = x2"
  then have "meta_pattern ''Additional Issue:'' (c # cs) = Some (x, y)"
    by (auto split: if_splits)
  from meta_pattern_shorter [OF this] show "((False, y), at_start, c # cs) \<in> measure (\<lambda>(at_start, s). length s)"
    by simp
next
  fix at_start c cs
  show "((is_line_terminator c, cs), at_start, c # cs) \<in> measure (\<lambda>(at_start, s). length s)"
    by simp
qed

text \<open>
  \<open>split_on\<close> is \<open>split\<close> with a one-character separator and \<open>join\<close> is \<open>join("\n")\<close>.
  \<open>extra_row\<close> is the body of the \<open>exec\<close> loop: \<open>parts[0]\<close> always exists, and \<open>parts[1]\<close>
  is \<open>undefined\<close> without a separator and may be the empty string; both are falsy.
\<close>

fun split_on :: "char \<Rightarrow> string \<Rightarrow> string list" where
  "split_on d [] = [[]]"
| "split_on d (c # cs) =
     (if c = d then [] # split_on d cs
      else (case split_on d cs of [] \<Rightarrow> [[c]] | p # ps \<Rightarrow> (c # p) # ps))"

fun join :: "string list \<Rightarrow> string" where
  "join [] = []"
| "join [l] = l"
| "join (l # m # ls) = l @ CHR 0x0A # join (m # ls)"

definition or_else :: "string \<Rightarrow> string \<Rightarrow> string" where
  "or_else s d = (if s = [] then d else s)"

definition extra_row :: "string \<Rightarrow> ExtraRow" where
  "extra_row captured =
     (let parts = split_on (CHR ''|'') captured;
          rowTitle = trim (case parts of [] \<Rightarrow> [] | p # _ \<Rightarrow> or_else p []);
          rowSeverity = trim (case parts of _ # q # _ \<Rightarrow> or_else q ''Medium'' | _ \<Rightarrow> ''Medium'')
      in \<lparr>row_title = rowTitle, row_severity = rowSeverity\<rparr>)"

text \<open>
  \<open>line.match(/^#{2,3}\s+(.+)$/)\<close> on a line, without the flag \<open>m\<close>: two or three hashes
  (a fourth hash is not white space), white space, and then characters up to the end of the
  line, none of them a line terminator (a line still holds a carriage return it ends with).
  When the line ends with the white space, \<open>\s+\<close> gives its last character to \<open>(.+)\<close>.
\<close>

definition heading_match :: "string \<Rightarrow> string option" where
  "heading_match line =
     (let hashes = takeWhile (\<lambda>c. c = CHR ''#'') line;
          r = dropWhile (\<lambda>c. c = CHR ''#'') line;
          ws = takeWhile is_space r;
          a = dropWhile is_space r
      in if length hashes \<noteq> 2 \<and> length hashes \<noteq> 3 then None
         else if ws = [] then None
         else if a \<noteq> [] then
           (if list_all (\<lambda>c. \<not> is_line_terminator c) a then Some a else None)
         else if 2 \<le> length ws \<and> \<not> is_line_terminator (last ws) then Some [last ws]
         else None)"

text \<open>
  \<open>splitSections\<close>. The state of its loop is \<open>currentKey\<close> (\<open>None\<close> for \<open>null\<close>),
  \<open>currentLines\<close> and \<open>sections\<close>, an object used as a dictionary: assigning to the key
  \<open>__proto__\<close> with a string does nothing, and a key assigned twice keeps the later value.
\<close>

definition store :: "string \<Rightarrow> string \<Rightarrow> (string \<Rightarrow> string option) \<Rightarrow> (string \<Rightarrow> string option)" where
  "store k v sections = (if k = ''__proto__'' then sections else sections(k \<mapsto> v))"

definition save_section ::
  "string option \<Rightarrow> string list \<Rightarrow> (string \<Rightarrow> string option) \<Rightarrow> (string \<Rightarrow> string option)" where
  "save_section currentKey currentLines sections =
     (case currentKey of None \<Rightarrow> sections | Some k \<Rightarrow> store k (join currentLines) sections)"

fun sections_loop ::
  "string option \<Rightarrow> string list \<Rightarrow> (string \<Rightarrow> string option) \<Rightarrow> string list
     \<Rightarrow> (string \<Rightarrow> string option)" where
  "sections_loop currentKey currentLines sections [] =
     save_section currentKey currentLines sections"
| "sections_loop currentKey currentLines sections (line # lines) =
     (case heading_match line of
        Some h \<Rightarrow>
          sections_loop (Some (toLowerCase (trim h))) []
            (save_section currentKey currentLines sections) lines
      | None \<Rightarrow>
          (if currentKey \<noteq> None
           then sections_loop currentKey (currentLines @ [line]) sections lines
           else sections_loop currentKey currentLines sections lines))"

definition splitSections :: "string \<Rightarrow> (string \<Rightarrow> string option)" where
  "splitSections content = sections_loop None [] Map.empty (split_on (CHR 0x0A) content)"

text \<open>
  \<open>extractMainContent\<close>: the lines before the first that matches \<open>/^###\s+/\<close>.
\<close>

definition subheading_line :: "string \<Rightarrow> bool" where
  "subheading_line line \<longleftrightarrow>
     take 3 line = ''###'' \<and> (case drop 3 line of [] \<Rightarrow> False | c # _ \<Rightarrow> is_space c)"

definition extractMainContent :: "string \<Rightarrow> string" where
  "extractMainContent content =
     join (takeWhile (\<lambda>line. \<not> subheading_line line) (split_on (CHR 0x0A) content))"

text \<open>
  The fenced code block, \<open>/```(\w*)\n([\s\S]*?)```/\<close>: three backticks, the word characters
  behind them, a line feed, and the text up to the next three backticks. \<open>until_fence\<close> is
  the lazy \<open>[\s\S]*?\<close> with the closing fence.
\<close>

definition is_word_char :: "char \<Rightarrow> bool" where
  "is_word_char c =
     (let n = (of_char c :: nat) in
      (48 \<le> n \<and> n \<le> 57) \<or> (65 \<le> n \<and> n \<le> 90) \<or> n = 95 \<or> (97 \<le> n \<and> n \<le> 122))"

fun until_fence :: "string \<Rightarrow> (string \<times> string) option" where
  "until_fence [] = None"
| "until_fence (c # cs) =
     (if take 3 (c # cs) = ''```'' then Some ([], drop 3 (c # cs))
      else (case until_fence cs of None \<Rightarrow> None | Some (body, rest) \<Rightarrow> Some (c # body, rest)))"

definition code_block_pattern :: "string \<Rightarrow> (string \<times> string) option" where
  "code_block_pattern s =
     (case strip_prefix ''```'' s of
        None \<Rightarrow> None
      | Some r \<Rightarrow>
          (case dropWhile is_word_char r of
             [] \<Rightarrow> None
           | c # body \<Rightarrow>
               if c \<noteq> CHR 0x0A then None
               else (case until_fence body of
                       None \<Rightarrow> None
                     | Some (code, rest) \<Rightarrow> Some (takeWhile is_word_char r, code))))"

section \<open>parseIssue and issueToMarkdown\<close>

text \<open>
  \<open>parseIssue\<close>. A field keeps the empty string of the initial record unless its pattern
  matches. No step of the function can throw: every match is tested before its groups are
  read, a group of a successful match is a string, and the lookups in \<open>sections\<close> are tested
  for truthiness. \<open>first_capture\<close> is \<open>match[1]\<close> of a search.
\<close>

definition meta_field :: "string \<Rightarrow> string \<Rightarrow> string" where
  "meta_field key markdownContent =
     (case search_lines (meta_pattern key) True markdownContent of
        Some (captured, _) \<Rightarrow> trim captured
      | None \<Rightarrow> [])"

definition parseIssue :: "string \<Rightarrow> IssueSnapshot" where
  "parseIssue markdownContent =
     (let sections = splitSections markdownContent;
          descContent = (case sections ''description'' of None \<Rightarrow> [] | Some c \<Rightarrow> c);
          codeContent = (case sections ''code example'' of None \<Rightarrow> [] | Some c \<Rightarrow> c);
          codeBlockMatch = search_all code_block_pattern codeContent
      in \<lparr>title = (case search_lines title_pattern True markdownContent of
                      Some (captured, _) \<Rightarrow> trim captured | None \<Rightarrow> []),
          overallRisk = meta_field ''Overall Risk:'' markdownContent,
          impact = meta_field ''Impact:'' markdownContent,
          exploitability = meta_field ''Exploitability:'' markdownContent,
          findingId = meta_field ''Finding ID:'' markdownContent,
          component = meta_field ''Component:'' markdownContent,
          category = meta_field ''Category:'' markdownContent,
          status = meta_field ''Status:'' markdownContent,
          impactDetails = (case sections ''impact details'' of
                             None \<Rightarrow> [] | Some c \<Rightarrow> if c \<noteq> [] then trim c else []),
          description = (if descContent \<noteq> [] then trim (extractMainContent descContent) else []),
          evidence = (if descContent \<noteq> [] then
                        (case search_all (meta_pattern ''Evidence:'') descContent of
                           Some (captured, _) \<Rightarrow> trim captured | None \<Rightarrow> [])
                      else []),
          codeExample = (if codeContent \<noteq> [] then
                           (case codeBlockMatch of
                              Some (lang, code) \<Rightarrow> trim code | None \<Rightarrow> trim codeContent)
                         else []),
          codeLanguage = (if codeContent \<noteq> [] then
                            (case codeBlockMatch of
                               Some (lang, code) \<Rightarrow> or_else lang ''text'' | None \<Rightarrow> [])
                          else []),
          exampleScenario = (case sections ''example issue scenario'' of
                               None \<Rightarrow> [] | Some c \<Rightarrow> if c \<noteq> [] then trim c else []),
          recommendation = (case sections ''recommendation'' of
                              None \<Rightarrow> [] | Some c \<Rightarrow> if c \<noteq> [] then trim c else []),
          extraRows = map extra_row (additional_captures True markdownContent)\<rparr>)"

text \<open>
  \<open>issueToMarkdown\<close> (App.tsx): the lines it pushes, joined with line feeds.
\<close>

definition issueToMarkdown :: "Issue \<Rightarrow> string" where
  "issueToMarkdown issue =
     join
       ([''# Issue title: '' @ or_else (title issue) ''Untitled'',
         [],
         ''Overall Risk: '' @ or_else (overallRisk issue) ''Medium'']
        @ map (\<lambda>row. ''Additional Issue: '' @ or_else (row_title row) [] @ '' | ''
                        @ or_else (row_severity row) ''Medium'') (extraRows issue)
        @ [''Impact: '' @ or_else (impact issue) ''Medium'',
           ''Exploitability: '' @ or_else (exploitability issue) ''Medium'',
           ''Finding ID: '' @ or_else (findingId issue) ''ABC-XXXXXX'',
           ''Component: '' @ or_else (component issue) [],
           ''Category: '' @ or_else (category issue) ''Uncategorized'',
           ''Status: '' @ or_else (status issue) ''New'',
           [],
           ''## Impact details'',
           [],
           or_else (impactDetails issue) [],
           [],
           ''## Description'',
           [],
           or_else (description issue) [],
           []]
        @ (if evidence issue \<noteq> [] then [''Evidence: '' @ evidence issue, []] else [])
        @ (if codeExample issue \<noteq> [] \<and> 0 < length (trim (codeExample issue)) then
             [''### Code example'',
              [],
              ''```'' @ or_else (codeLanguage issue) [],
              codeExample issue,
              ''```'',
              []]
           else [])
        @ [''### Example issue scenario'',
           [],
           or_else (exampleScenario issue) [],
           [],
           ''## Recommendation'',
           [],
           or_else (recommendation issue) [],
           []])"



text \<open>
  The section keys that the headings of a document give, in order: what its lines that match
  the heading pattern capture, trimmed and lower-cased.
\<close>

definition section_headings :: "string \<Rightarrow> string list" where
  "section_headings content =
     List.map_filter (\<lambda>line. map_option (\<lambda>h. toLowerCase (trim h)) (heading_match line))
       (split_on (CHR 0x0A) content)"

text \<open>An issue with a value in every field, for the examples.\<close>

definition example_issue :: Issue where
  "example_issue =
     \<lparr>title = ''Weak hash'', overallRisk = ''High'', impact = ''High'',
      exploitability = ''Low'', findingId = ''ABC-0001'', component = ''auth'',
      category = ''Security'', status = ''New'', impactDetails = ''- leak'',
      description = ''MD5 is used.'', evidence = ''auth.py'', codeExample = ''h = md5(p)'',
      codeLanguage = ''python'', exampleScenario = ''An attacker cracks it.'',
      recommendation = ''- use bcrypt'',
      extraRows = [\<lparr>row_title = ''Other'', row_severity = ''Low''\<rparr>], issue_id = 1\<rparr>"


section \<open>Inline markdown\<close>

text \<open>
  \<open>replace_char\<close> is \<open>replace(/c/g, r)\<close> for a character \<open>c\<close>. \<open>span_at\<close> is a pattern
  \<open>d([^x]+)d\<close> at a position, for a delimiter \<open>d\<close> made of the character \<open>x\<close>: the
  delimiter, the longest run of other characters, which must not be empty, and the delimiter
  again. \<open>replace_spans\<close> is \<open>replace\<close> with such a pattern, the flag \<open>g\<close> and the
  replacement \<open>otag$1ctag\<close>: the matches are found from left to right, each search starts
  behind the match that precedes it, and the text between matches is kept.
\<close>

definition replace_char :: "char \<Rightarrow> string \<Rightarrow> string \<Rightarrow> string" where
  "replace_char c r s = concat (map (\<lambda>x. if x = c then r else [x]) s)"

definition span_at :: "string \<Rightarrow> char \<Rightarrow> string \<Rightarrow> (string \<times> string) option" where
  "span_at d x s =
     (case strip_prefix d s of
        None \<Rightarrow> None
      | Some r \<Rightarrow>
          (let body = takeWhile (\<lambda>c. c \<noteq> x) r in
           if body = [] then None
           else (case strip_prefix d (dropWhile (\<lambda>c. c \<noteq> x) r) of
                   None \<Rightarrow> None
                 | Some rest \<Rightarrow> Some (body, rest))))"

function replace_spans :: "string \<Rightarrow> char \<Rightarrow> string \<Rightarrow> string \<Rightarrow> string \<Rightarrow> string" where
  "replace_spans d x otag ctag [] = []"
| "replace_spans d x otag ctag (c # cs) =
     (case span_at d x (c # cs) of
        Some (body, rest) \<Rightarrow> otag @ body @ ctag @ replace_spans d x otag ctag rest
      | None \<Rightarrow> c # replace_spans d x otag ctag cs)"
  by pat_completeness auto

lemma strip_prefix_shorter: "strip_prefix lit s = Some r \<Longrightarrow> length r \<le> length s"
  by (auto simp: strip_prefix_def split: if_splits)

lemma span_at_shorter:
  assumes "span_at d x s = Some (body, rest)"
  shows "length rest < length s"
proof -
  from assms obtain r where r: "strip_prefix d s = Some r"
    and b: "takeWhile (\<lambda>c. c \<noteq> x) r \<noteq> []"
    and t: "strip_prefix d (dropWhile (\<lambda>c. c \<noteq> x) r) = Some rest"
    by (auto simp: span_at_def Let_def split: option.splits if_splits)
  have "length (takeWhile (\<lambda>c. c \<noteq> x) r) + length (dropWhile (\<lambda>c. c \<noteq> x) r) = length r"
    by (metis length_append takeWhile_dropWhile_id)
  with b have "length (dropWhile (\<lambda>c. c \<noteq> x) r) < length r"
    by (cases "takeWhile (\<lambda>c. c \<noteq> x) r") auto
  with strip_prefix_shorter [OF r] strip_prefix_shorter [OF t] show ?thesis by linarith
qed

termination replace_spans
proof (relation "measure (\<lambda>(d, x, otag, ctag, s). length s)")
  show "wf (measure (\<lambda>(d, x, otag, ctag, s). length s))" by simp
next
  fix d :: string and x otag ctag c cs x2 body rest
  assume "span_at d x (c # cs) = Some x2" "(body, rest) = x2"
  then have "span_at d x (c # cs) = Some (body, rest)" by simp
  from span_at_shorter [OF this]
  show "((d, x, otag, ctag, rest), d, x, otag, ctag, c # cs)
      \<in> measure (\<lambda>(d, x, otag, ctag, s). length s)" by simp
next
  fix d :: string and x otag ctag c cs
  show "((d, x, otag, ctag, cs), d, x, otag, ctag, c # cs)
      \<in> measure (\<lambda>(d, x, otag, ctag, s). length s)" by simp
qed

text \<open>
  \<open>link_at\<close> is \<open>\[([^\]]+)\]\(([^)]+)\)\<close> at a position, with the text and the
  destination it captures, and \<open>replace_links\<close> the \<open>replace\<close> with it and the flag \<open>g\<close>;
  the replacement is a function of the two captures.
\<close>

definition link_at :: "string \<Rightarrow> ((string \<times> string) \<times> string) option" where
  "link_at s =
     (case s of
        [] \<Rightarrow> None
      | c # r \<Rightarrow>
          if c \<noteq> CHR ''['' then None
          else (let label = takeWhile (\<lambda>c. c \<noteq> CHR '']'') r in
                if label = [] then None
                else (case strip_prefix '']('' (dropWhile (\<lambda>c. c \<noteq> CHR '']'') r) of
                        None \<Rightarrow> None
                      | Some r2 \<Rightarrow>
                          (let url = takeWhile (\<lambda>c. c \<noteq> CHR '')'') r2 in
                           if url = [] then None
                           else (case dropWhile (\<lambda>c. c \<noteq> CHR '')'') r2 of
                                   [] \<Rightarrow> None
                                 | _ # rest \<Rightarrow> Some ((label, url), rest))))))"

function replace_links :: "(string \<Rightarrow> string \<Rightarrow> string) \<Rightarrow> string \<Rightarrow> string" where
  "replace_links f [] = []"
| "replace_links f (c # cs) =
     (case link_at (c # cs) of
        Some ((label, url), rest) \<Rightarrow> f label url @ replace_links f rest
      | None \<Rightarrow> c # replace_links f cs)"
  by pat_completeness auto

lemma link_at_shorter:
  assumes "link_at s = Some (lu, rest)"
  shows "length rest < length s"
proof -
  from assms obtain c r where s: "s = c # r"
    by (cases s) (auto simp: link_at_def)
  from assms s obtain r2 x where r2: "strip_prefix '']('' (dropWhile (\<lambda>c. c \<noteq> CHR '']'') r) = Some r2"
    and d: "dropWhile (\<lambda>c. c \<noteq> CHR '')'') r2 = x # rest"
    by (auto simp: link_at_def Let_def split: if_splits option.splits list.splits)
  have "length (x # rest) \<le> length r2"
    unfolding d [symmetric] by (rule length_dropWhile_le)
  moreover have "length r2 \<le> length (dropWhile (\<lambda>c. c \<noteq> CHR '']'') r)"
    by (rule strip_prefix_shorter [OF r2])
  moreover have "length (dropWhile (\<lambda>c. c \<noteq> CHR '']'') r) \<le> length r"
    by (rule length_dropWhile_le)
  ultimately show ?thesis using s by simp
qed

termination replace_links
proof (relation "measure (\<lambda>(f, s). length s)")
  show "wf (measure (\<lambda>(f, s). length s))" by simp
next
  fix f :: "string \<Rightarrow> string \<Rightarrow> string" and c cs x2 x y label url
  assume "link_at (c # cs) = Some x2" "(x, y) = x2" "(label, url) = x"
  then have "link_at (c # cs) = Some ((label, url), y)" by simp
  from link_at_shorter [OF this]
  show "((f, y), f, c # cs) \<in> measure (\<lambda>(f, s). length s)" by simp
next
  fix f :: "string \<Rightarrow> string \<Rightarrow> string" and c cs
  show "((f, cs), f, c # cs) \<in> measure (\<lambda>(f, s). length s)" by simp
qed

text \<open>
  \<open>inlineMarkdownToHtml\<close> (parseIssue.ts): the three escapes, then code, bold, italic and
  links, each pass on the output of the pass that precedes it.
\<close>

definition anchor :: "string \<Rightarrow> string \<Rightarrow> string" where
  "anchor label url = ''<a href='' @ [CHR 0x22] @ url @ [CHR 0x22] @ ''>'' @ label @ ''</a>''"

definition escape_html :: "string \<Rightarrow> string" where
  "escape_html s =
     replace_char (CHR ''>'') ''&gt;''
       (replace_char (CHR ''<'') ''&lt;'' (replace_char (CHR ''&'') ''&amp;'' s))"

definition inlineMarkdownToHtml :: "string \<Rightarrow> string" where
  "inlineMarkdownToHtml text =
     (if text = [] then []
      else (let html0 = escape_html text;
                html1 = replace_spans ''`'' (CHR ''`'') ''<code>'' ''</code>'' html0;
                html2 = replace_spans ''**'' (CHR ''*'') ''<strong>'' ''</strong>'' html1;
                html3 = replace_spans ''*'' (CHR ''*'') ''<em>'' ''</em>'' html2
            in replace_links anchor html3))"

text \<open>
  \<open>parseInlineMarkdown\<close> (generateDocx). A \<open>TextRun\<close> is modelled by its text and its style;
  the options that are the same for every run (\<open>baseOptions\<close>) are left out. The loop runs
  \<open>exec\<close> with \<open>/(`[^`]+`|\*\*[^*]+\*\*|\*[^*]+\*|[^`*]+)/g\<close>: at a position the
  alternatives are tried in order, and a backtick or an asterisk that starts none of them
  is skipped. A plain segment has its links replaced by their text and is pushed unless it
  is empty.
\<close>

datatype run_style = Plain | Code | Bold | Italic

record TextRun =
  run_text :: string
  run_style :: run_style

definition plain_char :: "char \<Rightarrow> bool" where
  "plain_char c \<longleftrightarrow> c \<noteq> CHR ''`'' \<and> c \<noteq> CHR ''*''"

function inline_runs :: "string \<Rightarrow> TextRun list" where
  "inline_runs [] = []"
| "inline_runs (c # cs) =
     (case span_at ''`'' (CHR ''`'') (c # cs) of
        Some (body, rest) \<Rightarrow> \<lparr>run_text = body, run_style = Code\<rparr> # inline_runs rest
      | None \<Rightarrow>
     (case span_at ''**'' (CHR ''*'') (c # cs) of
        Some (body, rest) \<Rightarrow> \<lparr>run_text = body, run_style = Bold\<rparr> # inline_runs rest
      | None \<Rightarrow>
     (case span_at ''*'' (CHR ''*'') (c # cs) of
        Some (body, rest) \<Rightarrow> \<lparr>run_text = body, run_style = Italic\<rparr> # inline_runs rest
      | None \<Rightarrow>
          (if plain_char c then
             (let segment = takeWhile plain_char (c # cs);
                  linkStripped = replace_links (\<lambda>label url. label) segment
              in (if linkStripped \<noteq> [] then [\<lparr>run_text = linkStripped, run_style = Plain\<rparr>] else [])
                 @ inline_runs (dropWhile plain_char cs))
           else inline_runs cs))))"
  by pat_completeness auto

termination inline_runs
proof (relation "measure length")
  show "wf (measure length)" by simp
next
  fix c cs x2 body rest
  assume "span_at ''`'' (CHR ''`'') (c # cs) = Some x2" "(body, rest) = x2"
  then have "span_at ''`'' (CHR ''`'') (c # cs) = Some (body, rest)" by simp
  from span_at_shorter [OF this] show "(rest, c # cs) \<in> measure length" by simp
next
  fix c cs x2 body rest
  assume "span_at ''**'' (CHR ''*'') (c # cs) = Some x2" "(body, rest) = x2"
  then have "span_at ''**'' (CHR ''*'') (c # cs) = Some (body, rest)" by simp
  from span_at_shorter [OF this] show "(rest, c # cs) \<in> measure length" by simp
next
  fix c cs x2 body rest
  assume "span_at ''*'' (CHR ''*'') (c # cs) = Some x2" "(body, rest) = x2"
  then have "span_at ''*'' (CHR ''*'') (c # cs) = Some (body, rest)" by simp
  from span_at_shorter [OF this] show "(rest, c # cs) \<in> measure length" by simp
next
  fix c cs
  have "length (dropWhile plain_char cs) \<le> length cs" by (rule length_dropWhile_le)
  then show "(dropWhile plain_char cs, c # cs) \<in> measure length" by simp
next
  fix c cs
  show "(cs, c # cs) \<in> measure length" by simp
qed

definition parseInlineMarkdown :: "string \<Rightarrow> TextRun list" where
  "parseInlineMarkdown text =
     (if text = [] then [\<lparr>run_text = [], run_style = Plain\<rparr>]
      else (let runs = inline_runs text in
            if runs = [] then [\<lparr>run_text = text, run_style = Plain\<rparr>] else runs))"

text \<open>
  What a list of runs says, written in the markup of \<open>inlineMarkdownToHtml\<close>: the two
  representations have the same content when this is the HTML.
\<close>

definition run_to_html :: "TextRun \<Rightarrow> string" where
  "run_to_html r =
     (case run_style r of
        Plain \<Rightarrow> escape_html (run_text r)
      | Code \<Rightarrow> ''<code>'' @ escape_html (run_text r) @ ''</code>''
      | Bold \<Rightarrow> ''<strong>'' @ escape_html (run_text r) @ ''</strong>''
      | Italic \<Rightarrow> ''<em>'' @ escape_html (run_text r) @ ''</em>'')"

definition runs_to_html :: "TextRun list \<Rightarrow> string" where
  "runs_to_html runs = concat (map run_to_html runs)"

text \<open>
  The inline grammar of the specification: a text is a sequence of plain text, links
  \<open>[text](url)\<close>, and code, bold and italic spans. \<open>markup\<close> writes such a sequence out.
\<close>

datatype inline_item =
    Txt string
  | Lnk string string
  | CodeSpan string
  | BoldSpan string
  | ItalicSpan string

fun markup_of :: "inline_item \<Rightarrow> string" where
  "markup_of (Txt p) = p"
| "markup_of (Lnk l u) = ''['' @ l @ '']('' @ u @ '')''"
| "markup_of (CodeSpan b) = ''`'' @ b @ ''`''"
| "markup_of (BoldSpan b) = ''**'' @ b @ ''**''"
| "markup_of (ItalicSpan b) = ''*'' @ b @ ''*''"

definition markup :: "inline_item list \<Rightarrow> string" where
  "markup items = concat (map markup_of items)"

text \<open>
  A sequence is well delimited when every delimiter in its text belongs to the item it
  opens or closes: no part of an item is empty; a backtick, an asterisk or an opening
  bracket occurs in no plain text, no span and no part of a link; the text of a link holds
  no closing bracket and its destination no closing parenthesis; and no italic span is
  directly followed by an italic span (the two asterisks that meet there read as a bold
  delimiter). Plain text may hold \<open>&\<close>, \<open><\<close>, \<open>>\<close>, brackets that close and parentheses.
\<close>

definition span_body :: "string \<Rightarrow> bool" where
  "span_body b \<longleftrightarrow> b \<noteq> [] \<and> list_all (\<lambda>c. c \<notin> set ''`*['') b"

fun item_ok :: "inline_item \<Rightarrow> bool" where
  "item_ok (Txt p) = span_body p"
| "item_ok (Lnk l u) =
     (span_body l \<and> CHR '']'' \<notin> set l \<and> span_body u \<and> CHR '')'' \<notin> set u)"
| "item_ok (CodeSpan b) = span_body b"
| "item_ok (BoldSpan b) = span_body b"
| "item_ok (ItalicSpan b) = span_body b"

fun is_italic :: "inline_item \<Rightarrow> bool" where
  "is_italic (ItalicSpan b) = True"
| "is_italic _ = False"

fun is_link :: "inline_item \<Rightarrow> bool" where
  "is_link (Lnk l u) = True"
| "is_link _ = False"

fun well_delimited :: "inline_item list \<Rightarrow> bool" where
  "well_delimited [] = True"
| "well_delimited [i] = item_ok i"
| "well_delimited (i # j # items) =
     (item_ok i \<and> \<not> (is_italic i \<and> is_italic j) \<and> well_delimited (j # items))"

text \<open>
  What the specification gives for a sequence. In HTML every item is an element, a link
  an anchor with its destination; the texts are escaped. As runs every span is a run of its
  style, and plain text and the visible texts of links that follow one another are one plain
  run (\<open>add_plain\<close> puts a text in front of a list of runs). \<open>visible\<close> replaces a link by
  its visible text.
\<close>

fun item_html :: "inline_item \<Rightarrow> string" where
  "item_html (Txt p) = escape_html p"
| "item_html (Lnk l u) = anchor (escape_html l) (escape_html u)"
| "item_html (CodeSpan b) = ''<code>'' @ escape_html b @ ''</code>''"
| "item_html (BoldSpan b) = ''<strong>'' @ escape_html b @ ''</strong>''"
| "item_html (ItalicSpan b) = ''<em>'' @ escape_html b @ ''</em>''"

fun add_plain :: "string \<Rightarrow> TextRun list \<Rightarrow> TextRun list" where
  "add_plain t [] = [\<lparr>run_text = t, run_style = Plain\<rparr>]"
| "add_plain t (r # rs) =
     (if run_style r = Plain then \<lparr>run_text = t @ run_text r, run_style = Plain\<rparr> # rs
      else \<lparr>run_text = t, run_style = Plain\<rparr> # r # rs)"

fun item_runs :: "inline_item list \<Rightarrow> TextRun list" where
  "item_runs [] = []"
| "item_runs (Txt p # items) = add_plain p (item_runs items)"
| "item_runs (Lnk l u # items) = add_plain l (item_runs items)"
| "item_runs (CodeSpan b # items) = \<lparr>run_text = b, run_style = Code\<rparr> # item_runs items"
| "item_runs (BoldSpan b # items) = \<lparr>run_text = b, run_style = Bold\<rparr> # item_runs items"
| "item_runs (ItalicSpan b # items) = \<lparr>run_text = b, run_style = Italic\<rparr> # item_runs items"

fun visible :: "inline_item \<Rightarrow> inline_item" where
  "visible (Lnk l u) = Txt l"
| "visible i = i"


text \<open>
  For the proofs: \<open>escape_item\<close> escapes the texts of an item; \<open>stage n\<close> is an item
  after \<open>n\<close> of the four replacements of \<open>inlineMarkdownToHtml\<close> (code, bold, italic,
  links); \<open>leading_text\<close> is the plain run that \<open>inline_runs\<close> makes of the start of a
  string; \<open>runs_agree\<close> says that a list of runs is what \<open>inline_runs\<close> gives for a string
  and that it starts with a plain run exactly when the string starts with a plain character.
\<close>

fun escape_item :: "inline_item \<Rightarrow> inline_item" where
  "escape_item (Txt p) = Txt (escape_html p)"
| "escape_item (Lnk l u) = Lnk (escape_html l) (escape_html u)"
| "escape_item (CodeSpan b) = CodeSpan (escape_html b)"
| "escape_item (BoldSpan b) = BoldSpan (escape_html b)"
| "escape_item (ItalicSpan b) = ItalicSpan (escape_html b)"

fun stage :: "nat \<Rightarrow> inline_item \<Rightarrow> string" where
  "stage n (Txt p) = p"
| "stage n (Lnk l u) = (if 4 \<le> n then anchor l u else ''['' @ l @ '']('' @ u @ '')'')"
| "stage n (CodeSpan b) = (if 1 \<le> n then ''<code>'' @ b @ ''</code>'' else ''`'' @ b @ ''`'')"
| "stage n (BoldSpan b) = (if 2 \<le> n then ''<strong>'' @ b @ ''</strong>'' else ''**'' @ b @ ''**'')"
| "stage n (ItalicSpan b) = (if 3 \<le> n then ''<em>'' @ b @ ''</em>'' else ''*'' @ b @ ''*'')"

definition leading_text :: "string \<Rightarrow> string" where
  "leading_text s = replace_links (\<lambda>label url. label) (takeWhile plain_char s)"

definition runs_agree :: "string \<Rightarrow> TextRun list \<Rightarrow> bool" where
  "runs_agree s runs \<longleftrightarrow>
     inline_runs s = runs
     \<and> (if takeWhile plain_char s = [] then runs = [] \<or> run_style (hd runs) \<noteq> Plain
        else runs = \<lparr>run_text = leading_text s, run_style = Plain\<rparr>
                      # inline_runs (dropWhile plain_char s))"

text \<open>Two sequences for the examples: one with a link, and the scenario of the specification.\<close>

definition example_items :: "inline_item list" where
  "example_items =
     [Txt ''See '', CodeSpan ''config.yml'', Txt '' and '', BoldSpan ''danger'', Txt '' in '',
      Lnk ''the docs'' ''http://x/?a=1&b=2'', ItalicSpan ''now'', Txt '' (a < b)'']"

definition scenario_items :: "inline_item list" where
  "scenario_items = [Txt ''See '', CodeSpan ''config.yml'', Txt '' and '', BoldSpan ''danger'']"


section \<open>Facts about strings\<close>

lemma of_char_toLowerCase_char:
  "(of_char (toLowerCase_char c) :: nat) =
     (let n = of_char c in
      if (65 \<le> n \<and> n \<le> 90) \<or> (192 \<le> n \<and> n \<le> 222 \<and> n \<noteq> 215) then n + 32 else n)"
  by (simp add: toLowerCase_char_def Let_def)

lemma toLowerCase_char_idem: "toLowerCase_char (toLowerCase_char c) = toLowerCase_char c"
proof -
  have "(of_char (toLowerCase_char (toLowerCase_char c)) :: nat) = of_char (toLowerCase_char c)"
    unfolding of_char_toLowerCase_char [of "toLowerCase_char c"]
    by (simp add: of_char_toLowerCase_char Let_def)
  then show ?thesis by simp
qed

lemma toLowerCase_idem: "toLowerCase (toLowerCase s) = toLowerCase s"
  by (simp add: toLowerCase_def toLowerCase_char_idem)

lemma lower_labels:
  "toLowerCase ''8B0000'' = ''8b0000''" "toLowerCase ''E74C3C'' = ''e74c3c''"
  "toLowerCase ''FD7E14'' = ''fd7e14''" "toLowerCase ''A8D08D'' = ''a8d08d''"
  "toLowerCase ''17A2B8'' = ''17a2b8''" "toLowerCase ''6C757D'' = ''6c757d''"
  "toLowerCase ''333333'' = ''333333''" "toLowerCase ''FFFFFF'' = ''ffffff''"
  by code_simp+

lemma colour_classes:
  "dark_colour ''#333333''" "\<not> light_colour ''#333333''"
  "light_colour ''#ffffff''" "\<not> dark_colour ''#ffffff''"
  by code_simp+

section \<open>Severity colours: the lookup\<close>

text \<open>
  C5, as the code has it. The lookup is case-insensitive (\<open>"Critical"\<close> and \<open>"critical"\<close>
  give the same pair, and so does every string and its lower-cased form); a string whose
  lower-cased form is none of the six labels gets the default pair, grey with a white
  foreground; the foreground is dark exactly for \<open>low\<close> and light for every other string,
  the default included; and the DOCX colours name the same colours as the badge pair on every
  input.
\<close>

theorem severity_colour_lookup:
  "getSeverityColor ''Critical'' = getSeverityColor ''critical''
   \<and> getSeverityColor (toLowerCase s) = getSeverityColor s
   \<and> (toLowerCase s \<notin> set severity_labels \<longrightarrow>
        getSeverityColor s = \<lparr>bg = ''#6c757d'', text_colour = ''#ffffff''\<rparr>)
   \<and> (dark_colour (text_colour (getSeverityColor s)) \<longleftrightarrow> toLowerCase s = ''low'')
   \<and> (light_colour (text_colour (getSeverityColor s)) \<longleftrightarrow> toLowerCase s \<noteq> ''low'')
   \<and> bg (getSeverityColor s) = css_of_docx (getSeverityColorHex s)
   \<and> text_colour (getSeverityColor s) = css_of_docx (getSeverityFontColor s)"
proof -
  have a: "getSeverityColor ''Critical'' = getSeverityColor ''critical''"
    by code_simp
  have b: "getSeverityColor (toLowerCase s) = getSeverityColor s"
    by (simp add: getSeverityColor_def toLowerCase_idem)
  have c: "toLowerCase s \<notin> set severity_labels \<longrightarrow>
        getSeverityColor s = \<lparr>bg = ''#6c757d'', text_colour = ''#ffffff''\<rparr>"
    by (simp add: getSeverityColor_def severity_labels_def)
  have d: "dark_colour (text_colour (getSeverityColor s)) \<longleftrightarrow> toLowerCase s = ''low''"
    by (simp add: getSeverityColor_def Let_def colour_classes)
  have e: "light_colour (text_colour (getSeverityColor s)) \<longleftrightarrow> toLowerCase s \<noteq> ''low''"
    by (simp add: getSeverityColor_def Let_def colour_classes)
  have f: "bg (getSeverityColor s) = css_of_docx (getSeverityColorHex s)"
    by (simp add: getSeverityColor_def getSeverityColorHex_def css_of_docx_def Let_def
        lower_labels)
  have g: "text_colour (getSeverityColor s) = css_of_docx (getSeverityFontColor s)"
    by (simp add: getSeverityColor_def getSeverityFontColor_def css_of_docx_def Let_def
        lower_labels)
  from a b c d e f g show ?thesis by blast
qed

theorem severity_colour_lookup_witness:
  "toLowerCase ''Unknown'' \<notin> set severity_labels
   \<and> getSeverityColor ''Unknown'' = \<lparr>bg = ''#6c757d'', text_colour = ''#ffffff''\<rparr>
   \<and> light_colour (text_colour (getSeverityColor ''Unknown''))"
proof -
  have h: "toLowerCase ''Unknown'' \<notin> set severity_labels"
    by code_simp
  have l: "toLowerCase ''Unknown'' \<noteq> ''low''"
    by code_simp
  note t = severity_colour_lookup [of "''Unknown''"]
  from t h have "getSeverityColor ''Unknown'' = \<lparr>bg = ''#6c757d'', text_colour = ''#ffffff''\<rparr>"
    by blast
  moreover from t l have "light_colour (text_colour (getSeverityColor ''Unknown''))"
    by blast
  ultimately show ?thesis using h by blast
qed

text \<open>
  C5 as the specification words it asks for a dark foreground on the default pair. The
  default pair of the code has the white foreground.
\<close>

theorem default_foreground_counterexample:
  "\<not> dark_colour (text_colour (getSeverityColor ''unknown''))"
  by code_simp

section \<open>The translation helper: precedence of the guards\<close>

lemma translateText_unavailable: "translateText False create text targetLanguage = Inr text"
  by (simp add: translateText_def)

lemma translateText_blank:
  "trim text = [] \<Longrightarrow> translateText available create text targetLanguage = Inr text"
  by (simp add: translateText_def)

lemma translateText_usage_error:
  "trim text \<noteq> [] \<Longrightarrow> trim targetLanguage = [] \<Longrightarrow>
   translateText True create text targetLanguage = Inl (Error ''Target language is required'')"
  by (auto simp: translateText_def trim_def trimStart_def trimEnd_def)

text \<open>
  C9, as the code orders its guards. Without an API key the text comes back unchanged,
  whatever the target language. With a key, an empty or blank text comes back unchanged,
  whatever the target language. Only with a key and a text that is not blank does an empty or
  blank target language reject, with the usage error.
\<close>

theorem translateText_guards:
  "translateText False create text targetLanguage = Inr text
   \<and> translateText available create [] targetLanguage = Inr []
   \<and> (trim text = [] \<longrightarrow> translateText available create text targetLanguage = Inr text)
   \<and> (trim text \<noteq> [] \<and> trim targetLanguage = [] \<longrightarrow>
        translateText True create text targetLanguage
          = Inl (Error ''Target language is required''))"
  using translateText_unavailable [of create "text" targetLanguage]
    translateText_blank [of "text" available create targetLanguage]
    translateText_blank [of "[]" available create targetLanguage]
    translateText_usage_error [of "text" targetLanguage create]
  by (simp add: trim_def trimStart_def trimEnd_def)

theorem translateText_guards_witness:
  "trim ''  '' = [] \<and> translateText True (\<lambda>t l. Inr (Some ''labas'')) ''  '' ''Lithuanian'' = Inr ''  ''
   \<and> trim ''hello'' \<noteq> [] \<and> trim '' '' = []
   \<and> translateText True (\<lambda>t l. Inr (Some ''labas'')) ''hello'' '' ''
        = Inl (Error ''Target language is required'')"
proof -
  have b: "trim ''  '' = []" and n: "trim ''hello'' \<noteq> []" and l: "trim '' '' = []"
    by code_simp+
  note t1 = translateText_guards [of "\<lambda>t l. Inr (Some ''labas'')" "''  ''" "''Lithuanian''" True]
  note t2 = translateText_guards [of "\<lambda>t l. Inr (Some ''labas'')" "''hello''" "'' ''" True]
  from t1 b have "translateText True (\<lambda>t l. Inr (Some ''labas'')) ''  '' ''Lithuanian'' = Inr ''  ''"
    by blast
  moreover from t2 n l have "translateText True (\<lambda>t l. Inr (Some ''labas'')) ''hello'' '' ''
        = Inl (Error ''Target language is required'')"
    by blast
  ultimately show ?thesis using b n l by blast
qed

text \<open>
  C9 as the specification words it has an empty target language rejected on every call. With
  an empty text, or without an API key, the call returns the text and rejects nothing.
\<close>

theorem empty_target_counterexample:
  "translateText True (\<lambda>t l. Inr (Some ''labas'')) '''' '''' = Inr ''''
   \<and> translateText False (\<lambda>t l. Inr (Some ''labas'')) ''hello'' '''' = Inr ''hello''"
  by (simp add: translateText_def)

section \<open>Facts about the sort\<close>

lemma mset_sort_insert: "mset (sort_insert c x xs) = add_mset x (mset xs)"
  by (induction xs) auto

lemma mset_array_sort: "mset (array_sort c xs) = mset xs"
  by (induction xs) (auto simp: array_sort_def mset_sort_insert)

lemma set_array_sort: "set (array_sort c xs) = set xs"
  using mset_array_sort [of c xs] by (metis set_mset_mset)

lemma length_array_sort: "length (array_sort c xs) = length xs"
  using mset_array_sort [of c xs] by (metis size_mset)

lemma array_sort_Cons: "array_sort c (x # xs) = sort_insert c x (array_sort c xs)"
  by (simp add: array_sort_def)

lemma array_sort_Nil: "array_sort c [] = []"
  by (simp add: array_sort_def)

text \<open>
  A comparator that is the difference of numeric keys sorts as the library's stable
  insertion sort on the key does.
\<close>

lemma sort_insert_key:
  "\<forall>a b. c a b = Num (f a - f b) \<Longrightarrow> sort_insert c x xs = insort_key f x xs"
  by (induction xs) auto

lemma array_sort_key:
  "\<forall>a b. c a b = Num (f a - f b) \<Longrightarrow> array_sort c xs = sort_key f xs"
  by (induction xs) (auto simp: array_sort_Cons array_sort_Nil sort_insert_key)

lemma sort_insert_cong:
  "(\<And>y. y \<in> set xs \<Longrightarrow> c x y = d x y) \<Longrightarrow> sort_insert c x xs = sort_insert d x xs"
  by (induction xs) auto

lemma array_sort_cong:
  "(\<And>x y. x \<in> set xs \<Longrightarrow> y \<in> set xs \<Longrightarrow> c x y = d x y) \<Longrightarrow> array_sort c xs = array_sort d xs"
proof (induction xs)
  case Nil
  then show ?case by (simp add: array_sort_Nil)
next
  case (Cons x xs)
  then have "array_sort c xs = array_sort d xs" by simp
  moreover have "sort_insert c x (array_sort d xs) = sort_insert d x (array_sort d xs)"
    by (rule sort_insert_cong) (simp add: Cons.prems set_array_sort)
  ultimately show ?case by (simp add: array_sort_Cons)
qed

text \<open>With a transitive comparator that never orders a pair both ways, the result is ordered.\<close>

lemma sorted_sort_insert:
  assumes anti: "\<And>a b. is_positive (c a b) \<Longrightarrow> \<not> is_positive (c b a)"
    and trans: "\<And>a b d. \<not> is_positive (c a b) \<Longrightarrow> \<not> is_positive (c b d) \<Longrightarrow> \<not> is_positive (c a d)"
  shows "sorted_wrt (\<lambda>a b. \<not> is_positive (c a b)) xs
         \<Longrightarrow> sorted_wrt (\<lambda>a b. \<not> is_positive (c a b)) (sort_insert c x xs)"
proof (induction xs)
  case Nil
  then show ?case by simp
next
  case (Cons y ys)
  show ?case
  proof (cases "is_positive (c x y)")
    case True
    have "\<not> is_positive (c y z)" if "z \<in> set (sort_insert c x ys)" for z
    proof -
      from that have "z = x \<or> z \<in> set ys"
        using mset_sort_insert [of c x ys] by (metis insert_iff set_mset_add_mset_insert set_mset_mset)
      then show ?thesis using True anti Cons.prems by auto
    qed
    with Cons True show ?thesis by simp
  next
    case False
    with Cons.prems trans show ?thesis by auto
  qed
qed

lemma sorted_array_sort:
  assumes "\<And>a b. is_positive (c a b) \<Longrightarrow> \<not> is_positive (c b a)"
    and "\<And>a b d. \<not> is_positive (c a b) \<Longrightarrow> \<not> is_positive (c b d) \<Longrightarrow> \<not> is_positive (c a d)"
  shows "sorted_wrt (\<lambda>a b. \<not> is_positive (c a b)) (array_sort c xs)"
  by (induction xs) (simp_all add: array_sort_Nil array_sort_Cons sorted_sort_insert [OF assms])

section \<open>Facts about the category map\<close>

lemma map_push_keys:
  "map fst (map_push k x m) = (if k \<in> fst ` set m then map fst m else map fst m @ [k])"
  by (induction m) (auto split: if_splits)

lemma map_push_lookup:
  "distinct (map fst m) \<Longrightarrow>
   map_of (map_push k x m) = (map_of m)(k \<mapsto> (case map_of m k of None \<Rightarrow> [x] | Some items \<Rightarrow> items @ [x]))"
proof (induction m)
  case Nil
  then show ?case by simp
next
  case (Cons p m)
  obtain k' items where p: "p = (k', items)" by (cases p)
  show ?case
  proof (cases "k' = k")
    case True
    then show ?thesis using p by (auto simp: fun_eq_iff)
  next
    case False
    then show ?thesis using p Cons by (auto simp: fun_eq_iff)
  qed
qed

lemma category_map_snoc:
  "category_map (xs @ [x]) = map_push (category_key x) x (category_map xs)"
  by (simp add: category_map_def)

lemma category_map_inv:
  "distinct (map fst (category_map xs))
   \<and> fst ` set (category_map xs) = category_key ` set xs
   \<and> (\<forall>k. map_of (category_map xs) k =
        (if k \<in> category_key ` set xs then Some (filter (\<lambda>x. category_key x = k) xs) else None))"
proof (induction xs rule: rev_induct)
  case Nil
  then show ?case by (simp add: category_map_def)
next
  case (snoc x xs)
  let ?m = "category_map xs"
  from snoc have d: "distinct (map fst ?m)"
    and keys: "fst ` set ?m = category_key ` set xs"
    and look: "\<And>k. map_of ?m k =
        (if k \<in> category_key ` set xs then Some (filter (\<lambda>x. category_key x = k) xs) else None)"
    by blast+
  have d': "distinct (map fst (map_push (category_key x) x ?m))"
    using d by (auto simp: map_push_keys)
  have keys': "fst ` set (map_push (category_key x) x ?m) = category_key ` set (xs @ [x])"
  proof -
    have "fst ` set (map_push (category_key x) x ?m) = set (map fst (map_push (category_key x) x ?m))"
      by simp
    also have "\<dots> = insert (category_key x) (fst ` set ?m)"
      unfolding map_push_keys by auto
    finally show ?thesis using keys by auto
  qed
  have look': "map_of (map_push (category_key x) x ?m) k =
        (if k \<in> category_key ` set (xs @ [x])
         then Some (filter (\<lambda>y. category_key y = k) (xs @ [x])) else None)" for k
    unfolding map_push_lookup [OF d] using look
    by (auto split: option.splits if_splits simp: filter_empty_conv image_iff)
  show ?case unfolding category_map_snoc using d' keys' look' by blast
qed

lemma category_map_entry:
  assumes "(k, items) \<in> set (category_map xs)"
  shows "items = filter (\<lambda>x. category_key x = k) xs" and "k \<in> category_key ` set xs"
proof -
  from category_map_inv [of xs] have d: "distinct (map fst (category_map xs))"
    and look: "\<And>k. map_of (category_map xs) k =
        (if k \<in> category_key ` set xs then Some (filter (\<lambda>x. category_key x = k) xs) else None)"
    by blast+
  from assms d have "map_of (category_map xs) k = Some items" by simp
  with look [of k] show "items = filter (\<lambda>x. category_key x = k) xs" and "k \<in> category_key ` set xs"
    by (auto split: if_splits)
qed

lemma category_map_nonempty:
  assumes "(k, items) \<in> set (category_map xs)"
  shows "items \<noteq> []"
proof -
  from category_map_entry [OF assms] obtain x where "x \<in> set xs" "category_key x = k"
    and "items = filter (\<lambda>x. category_key x = k) xs" by auto
  then show ?thesis by (auto simp: filter_empty_conv)
qed

lemma mset_concat_category_map: "mset (concat (map snd (category_map xs))) = mset xs"
proof (induction xs rule: rev_induct)
  case Nil
  then show ?case by (simp add: category_map_def)
next
  case (snoc x xs)
  have "mset (concat (map snd (map_push k x m))) = add_mset x (mset (concat (map snd m)))" for k m
    by (induction m) auto
  with snoc show ?case by (simp add: category_map_snoc)
qed

section \<open>Grouping: a partition of the input\<close>

lemma mset_concat_perm:
  "mset (concat (map f xs)) = sum_mset (image_mset (\<lambda>x. mset (f x)) (mset xs))"
  by (induction xs) auto

lemma group_issues_groupByCategory:
  "map group_issues (groupByCategory lc xs)
     = map (\<lambda>e. array_sort by_severity (snd e))
         (array_sort (\<lambda>(a, _) (b, _). Num (lc a b)) (category_map xs))"
  by (simp add: groupByCategory_def case_prod_beta)

lemma group_category_groupByCategory:
  "map group_category (groupByCategory lc xs)
     = map fst (array_sort (\<lambda>(a, _) (b, _). Num (lc a b)) (category_map xs))"
  by (simp add: groupByCategory_def case_prod_beta)

lemma groupByCategory_member:
  assumes "g \<in> set (groupByCategory lc xs)"
  shows "(group_category g, filter (\<lambda>x. category_key x = group_category g) xs) \<in> set (category_map xs)"
    and "group_issues g = array_sort by_severity (filter (\<lambda>x. category_key x = group_category g) xs)"
proof -
  from assms obtain k items where e: "(k, items) \<in> set (category_map xs)"
    and g: "g = \<lparr>group_category = k, group_issues = array_sort by_severity items\<rparr>"
    by (auto simp: groupByCategory_def set_array_sort)
  from category_map_entry(1) [OF e] have "items = filter (\<lambda>x. category_key x = k) xs" .
  with e g show "(group_category g, filter (\<lambda>x. category_key x = group_category g) xs) \<in> set (category_map xs)"
    and "group_issues g = array_sort by_severity (filter (\<lambda>x. category_key x = group_category g) xs)"
    by simp_all
qed

lemma mset_groupByCategory:
  "mset (concat (map group_issues (groupByCategory lc xs))) = mset xs"
proof -
  have "mset (concat (map group_issues (groupByCategory lc xs)))
      = sum_mset (image_mset (\<lambda>e. mset (array_sort by_severity (snd e)))
          (mset (array_sort (\<lambda>(a, _) (b, _). Num (lc a b)) (category_map xs))))"
    unfolding group_issues_groupByCategory by (rule mset_concat_perm)
  also have "\<dots> = sum_mset (image_mset (\<lambda>e. mset (snd e)) (mset (category_map xs)))"
    by (simp add: mset_array_sort)
  also have "\<dots> = mset (concat (map snd (category_map xs)))"
    by (rule mset_concat_perm [symmetric])
  finally show ?thesis by (simp add: mset_concat_category_map)
qed

lemma distinct_groupByCategory: "distinct (map group_category (groupByCategory lc xs))"
proof -
  have "mset (map fst (array_sort (\<lambda>(a, _) (b, _). Num (lc a b)) (category_map xs)))
      = mset (map fst (category_map xs))"
    by (simp add: mset_array_sort)
  then have "distinct (map fst (array_sort (\<lambda>(a, _) (b, _). Num (lc a b)) (category_map xs)))
      \<longleftrightarrow> distinct (map fst (category_map xs))"
    by (rule mset_eq_imp_distinct_iff)
  with category_map_inv [of xs] show ?thesis
    by (simp add: group_category_groupByCategory)
qed

text \<open>
  C10. The groups together hold the input, each record as often as the input has it; a group
  is not empty and holds only records of its own category key (a record's category, or
  \<open>Uncategorized\<close> when that is empty); and no category name is the name of two groups, so
  a record is in one group only.
\<close>

theorem groupByCategory_partition:
  "mset (concat (map group_issues (groupByCategory lc xs))) = mset xs
   \<and> (\<forall>g \<in> set (groupByCategory lc xs).
        group_issues g \<noteq> [] \<and> (\<forall>x \<in> set (group_issues g). category_key x = group_category g))
   \<and> distinct (map group_category (groupByCategory lc xs))"
proof -
  have "group_issues g \<noteq> [] \<and> (\<forall>x \<in> set (group_issues g). category_key x = group_category g)"
    if g: "g \<in> set (groupByCategory lc xs)" for g
  proof -
    let ?items = "filter (\<lambda>x. category_key x = group_category g) xs"
    from groupByCategory_member [OF g]
    have e: "(group_category g, ?items) \<in> set (category_map xs)"
      and s: "group_issues g = array_sort by_severity ?items" by blast+
    from category_map_nonempty [OF e] have "?items \<noteq> []" .
    then have "group_issues g \<noteq> []"
      using s length_array_sort [of by_severity ?items] by (metis length_0_conv)
    moreover have "\<forall>x \<in> set (group_issues g). category_key x = group_category g"
      unfolding s set_array_sort by simp
    ultimately show ?thesis by blast
  qed
  with mset_groupByCategory [of lc xs] distinct_groupByCategory [of lc xs] show ?thesis by blast
qed

lemma example_groups:
  "groupByCategory compare_code_units
     [newIssue 1 ''Web'', (newIssue 2 ''Auth'')\<lparr>overallRisk := ''Low''\<rparr>,
      (newIssue 3 ''Auth'')\<lparr>overallRisk := ''High''\<rparr>]
   = [\<lparr>group_category = ''Auth'',
        group_issues = [(newIssue 3 ''Auth'')\<lparr>overallRisk := ''High''\<rparr>,
                        (newIssue 2 ''Auth'')\<lparr>overallRisk := ''Low''\<rparr>]\<rparr>,
      \<lparr>group_category = ''Web'', group_issues = [newIssue 1 ''Web'']\<rparr>]"
  by code_simp



theorem groupByCategory_partition_witness:
  "\<lparr>group_category = ''Auth'',
      group_issues = [(newIssue 3 ''Auth'')\<lparr>overallRisk := ''High''\<rparr>,
                      (newIssue 2 ''Auth'')\<lparr>overallRisk := ''Low''\<rparr>]\<rparr>
     \<in> set (groupByCategory compare_code_units
         [newIssue 1 ''Web'', (newIssue 2 ''Auth'')\<lparr>overallRisk := ''Low''\<rparr>,
          (newIssue 3 ''Auth'')\<lparr>overallRisk := ''High''\<rparr>])
   \<and> category_key ((newIssue 2 ''Auth'')\<lparr>overallRisk := ''Low''\<rparr>) = ''Auth''"
proof -
  let ?xs = "[newIssue 1 ''Web'', (newIssue 2 ''Auth'')\<lparr>overallRisk := ''Low''\<rparr>,
          (newIssue 3 ''Auth'')\<lparr>overallRisk := ''High''\<rparr>]"
  let ?g = "\<lparr>group_category = ''Auth'',
      group_issues = [(newIssue 3 ''Auth'')\<lparr>overallRisk := ''High''\<rparr>,
                      (newIssue 2 ''Auth'')\<lparr>overallRisk := ''Low''\<rparr>]\<rparr>"
  have m: "?g \<in> set (groupByCategory compare_code_units ?xs)"
    unfolding example_groups by simp
  from groupByCategory_partition [of compare_code_units ?xs] m
  have "\<forall>x \<in> set (group_issues ?g). category_key x = group_category ?g"
    by blast
  then have "category_key ((newIssue 2 ''Auth'')\<lparr>overallRisk := ''Low''\<rparr>) = ''Auth''"
    by simp
  with m show ?thesis by blast
qed

section \<open>Grouping: the order\<close>

lemma severityRank_numeric:
  "\<not> inherited_key s \<Longrightarrow> severityRank s = Number (rank_of s)"
  by (simp add: severityRank_def SEVERITY_ORDER_def rank_of_def inherited_key_def Let_def)

lemma by_severity_numeric:
  assumes "\<not> inherited_key (overallRisk a)" "\<not> inherited_key (overallRisk b)"
  shows "by_severity a b = Num (rank_of (overallRisk a) - rank_of (overallRisk b))"
  using assms by (simp add: by_severity_def severityRank_numeric)

lemma array_sort_by_severity:
  assumes "\<forall>x \<in> set xs. \<not> inherited_key (overallRisk x)"
  shows "array_sort by_severity xs = sort_key (\<lambda>x. rank_of (overallRisk x)) xs"
proof -
  let ?c = "\<lambda>a b. Num (rank_of (overallRisk a) - rank_of (overallRisk b))"
  have "array_sort by_severity xs = array_sort ?c xs"
    by (rule array_sort_cong) (use assms in \<open>simp add: by_severity_numeric\<close>)
  also have "\<dots> = sort_key (\<lambda>x. rank_of (overallRisk x)) xs"
    by (rule array_sort_key) simp
  finally show ?thesis .
qed

lemma categories_sorted:
  assumes "consistent_comparator lc"
  shows "sorted_wrt (\<lambda>a b. lc a b \<le> 0) (map group_category (groupByCategory lc xs))"
proof -
  let ?c = "\<lambda>(a, _) (b, _). Num (lc a b)"
  let ?es = "array_sort ?c (category_map xs :: (string \<times> Issue list) list)"
  have anti: "\<And>a b. 0 < lc a b \<Longrightarrow> lc b a \<le> 0"
    and trans: "\<And>a b c. lc a b \<le> 0 \<Longrightarrow> lc b c \<le> 0 \<Longrightarrow> lc a c \<le> 0"
    using assms unfolding consistent_comparator_def by blast+
  have "sorted_wrt (\<lambda>p q. \<not> is_positive (?c p q)) ?es"
  proof (rule sorted_array_sort)
    fix p q :: "string \<times> Issue list"
    assume "is_positive (?c p q)"
    then show "\<not> is_positive (?c q p)"
      using anti [of "fst p" "fst q"] by (simp add: case_prod_beta)
  next
    fix p q r :: "string \<times> Issue list"
    assume "\<not> is_positive (?c p q)" "\<not> is_positive (?c q r)"
    then show "\<not> is_positive (?c p r)"
      using trans [of "fst p" "fst q" "fst r"] by (simp add: case_prod_beta)
  qed
  then have "sorted_wrt (\<lambda>p q. lc (fst p) (fst q) \<le> 0) ?es"
    by (rule sorted_wrt_mono_rel [rotated]) (simp add: case_prod_beta)
  then show ?thesis
    unfolding group_category_groupByCategory sorted_wrt_map .
qed

text \<open>
  What C1 says holds for every input in which no \<open>overallRisk\<close> is, up to case,
  \<open>constructor\<close> or \<open>__proto__\<close>, for a consistent \<open>localeCompare\<close>: the category names are in
  the comparator's order, the issues of a group are the issues of that category in input
  order, sorted by rank, and issues of equal rank keep their input order.
\<close>

theorem groupByCategory_ordered:
  assumes "consistent_comparator lc"
    and "\<forall>x \<in> set xs. \<not> inherited_key (overallRisk x)"
  shows "sorted_wrt (\<lambda>a b. lc a b \<le> 0) (map group_category (groupByCategory lc xs))
    \<and> (\<forall>g \<in> set (groupByCategory lc xs).
         sorted (map (\<lambda>x. rank_of (overallRisk x)) (group_issues g))
         \<and> (\<forall>k. filter (\<lambda>x. rank_of (overallRisk x) = k) (group_issues g)
                = filter (\<lambda>x. rank_of (overallRisk x) = k)
                    (filter (\<lambda>x. category_key x = group_category g) xs)))"
proof -
  have "sorted (map (\<lambda>x. rank_of (overallRisk x)) (group_issues g))
         \<and> (\<forall>k. filter (\<lambda>x. rank_of (overallRisk x) = k) (group_issues g)
                = filter (\<lambda>x. rank_of (overallRisk x) = k)
                    (filter (\<lambda>x. category_key x = group_category g) xs))"
    if g: "g \<in> set (groupByCategory lc xs)" for g
  proof -
    let ?items = "filter (\<lambda>x. category_key x = group_category g) xs"
    have "\<forall>x \<in> set ?items. \<not> inherited_key (overallRisk x)"
      using assms(2) by simp
    then have "group_issues g = sort_key (\<lambda>x. rank_of (overallRisk x)) ?items"
      using groupByCategory_member(2) [OF g] by (simp only: array_sort_by_severity)
    then show ?thesis
      by (simp only: sorted_sort_key sort_key_stable simp_thms)
  qed
  with categories_sorted [OF assms(1), of xs] show ?thesis by blast
qed

lemma compare_code_units_anti:
  "0 < compare_code_units a b \<Longrightarrow> compare_code_units b a \<le> 0"
proof (induction a b rule: compare_code_units.induct)
  case (4 x xs y ys)
  show ?case
  proof (cases "(of_char x :: nat) = of_char y")
    case True
    with 4 show ?thesis by simp
  next
    case False
    with 4 show ?thesis by (cases "(of_char x :: nat) < of_char y") simp_all
  qed
qed simp_all

lemma compare_code_units_trans:
  "compare_code_units a b \<le> 0 \<Longrightarrow> compare_code_units b c \<le> 0 \<Longrightarrow> compare_code_units a c \<le> 0"
proof (induction a b arbitrary: c rule: compare_code_units.induct)
  case 1
  then show ?case by simp
next
  case (2 y ys)
  then show ?case by (cases c) simp_all
next
  case (3 x xs)
  then show ?case by simp
next
  case (4 x xs y ys)
  show ?case
  proof (cases c)
    case Nil
    with 4 show ?thesis by simp
  next
    case (Cons z zs)
    from "4.prems"(1) have xy: "(of_char x :: nat) \<le> of_char y"
      by (simp split: if_splits)
    from "4.prems"(2) Cons have yz: "(of_char y :: nat) \<le> of_char z"
      by (simp split: if_splits)
    show ?thesis
    proof (cases "(of_char x :: nat) < of_char z")
      case True
      with Cons show ?thesis by simp
    next
      case False
      with xy yz have e1: "(of_char x :: nat) = of_char y" and e2: "(of_char y :: nat) = of_char z"
        by linarith+
      from "4.prems"(1) e1 have p1: "compare_code_units xs ys \<le> 0" by simp
      from "4.prems"(2) e2 Cons have p2: "compare_code_units ys zs \<le> 0" by simp
      from e1 have "\<not> (of_char x :: nat) < of_char y" "\<not> (of_char y :: nat) < of_char x" by simp_all
      from "4.IH" [OF this p1 p2] e1 e2 Cons show ?thesis by simp
    qed
  qed
qed

lemma consistent_compare_code_units: "consistent_comparator compare_code_units"
  unfolding consistent_comparator_def
  using compare_code_units_anti compare_code_units_trans by blast

theorem groupByCategory_ordered_witness:
  "sorted (map (\<lambda>x. rank_of (overallRisk x))
     [(newIssue 3 ''Auth'')\<lparr>overallRisk := ''High''\<rparr>, (newIssue 2 ''Auth'')\<lparr>overallRisk := ''Low''\<rparr>])"
proof -
  let ?xs = "[newIssue 1 ''Web'', (newIssue 2 ''Auth'')\<lparr>overallRisk := ''Low''\<rparr>,
          (newIssue 3 ''Auth'')\<lparr>overallRisk := ''High''\<rparr>]"
  let ?g = "\<lparr>group_category = ''Auth'',
      group_issues = [(newIssue 3 ''Auth'')\<lparr>overallRisk := ''High''\<rparr>,
                      (newIssue 2 ''Auth'')\<lparr>overallRisk := ''Low''\<rparr>]\<rparr>"
  have h: "\<forall>x \<in> set ?xs. \<not> inherited_key (overallRisk x)"
    by code_simp
  have m: "?g \<in> set (groupByCategory compare_code_units ?xs)"
    unfolding example_groups by simp
  from groupByCategory_ordered [OF consistent_compare_code_units h] m
  have "sorted (map (\<lambda>x. rank_of (overallRisk x)) (group_issues ?g))"
    by blast
  then show ?thesis by simp
qed

text \<open>
  C1 fails where an \<open>overallRisk\<close> names a member of \<open>Object.prototype\<close>. \<open>severityRank\<close>
  then returns that member instead of 5 and the comparator yields \<open>NaN\<close> against every issue.
  For the two issues below every comparison is \<open>NaN\<close>, read as 0: the comparator is
  consistent, all elements compare equal, and the stable sort keeps the input order. The
  issue stays before an issue of severity Low (rank 3), which the order of C1 puts first.
\<close>

theorem severityRank_inherited_key:
  "severityRank ''constructor'' = Object_prototype_member
   \<and> rank_of ''constructor'' = 5 \<and> rank_of ''Low'' = 3
   \<and> map group_issues (groupByCategory compare_code_units
       [(newIssue 1 ''Auth'')\<lparr>overallRisk := ''constructor''\<rparr>,
        (newIssue 2 ''Auth'')\<lparr>overallRisk := ''Low''\<rparr>])
     = [[(newIssue 1 ''Auth'')\<lparr>overallRisk := ''constructor''\<rparr>,
         (newIssue 2 ''Auth'')\<lparr>overallRisk := ''Low''\<rparr>]]"
  by code_simp



section \<open>Reindexing: two categories\<close>

declare String_of_nat.simps [simp del]

lemma padded_numbers:
  "padStart 4 (CHR ''0'') (String_of_nat 1) = ''0001''"
  "padStart 4 (CHR ''0'') (String_of_nat 2) = ''0002''"
  "padStart 4 (CHR ''0'') (String_of_nat 1001) = ''1001''"
  "padStart 4 (CHR ''0'') (String_of_nat 1002) = ''1002''"
  "padStart 4 (CHR ''0'') (String_of_nat 1003) = ''1003''"
  "padStart 4 (CHR ''0'') (String_of_nat (Suc 0)) = ''0001''"
  "padStart 4 (CHR ''0'') (String_of_nat (Suc (Suc 0))) = ''0002''"
  by code_simp+

lemma trim_ABC: "trim ''ABC'' = ''ABC''"
  by code_simp

lemma map_of_five:
  assumes "distinct [k1, k2, k3, k4, k5 :: int]"
  shows "map_of (rev [(k1, v1), (k2, v2), (k3, v3), (k4, v4), (k5, v5)]) k
    = (if k = k1 then Some v1 else if k = k2 then Some v2 else if k = k3 then Some v3
       else if k = k4 then Some v4 else if k = k5 then Some v5 else None)"
  using assms by simp

lemma idMap_calls_2_3:
  assumes "group_issues g1 = [a1, a2]" "group_issues g2 = [b1, b2, b3]"
  shows "idMap_calls p [g1, g2]
    = [(issue_id a1, p @ ''-0001''), (issue_id a2, p @ ''-0002''),
       (issue_id b1, p @ ''-1001''), (issue_id b2, p @ ''-1002''), (issue_id b3, p @ ''-1003'')]"
  using assms by (simp add: idMap_calls_def padded_numbers)

text \<open>
  C8. The issues carry distinct identifiers, as the identifier counter of the application
  gives them. When they group into two categories of two and three issues and the user
  answers the prompt with \<open>ABC\<close>, each issue of the first group gets \<open>ABC-0001\<close>,
  \<open>ABC-0002\<close> and each issue of the second \<open>ABC-1001\<close>, \<open>ABC-1002\<close>, \<open>ABC-1003\<close>, in the
  order of the group; the five issues are all the issues there are.
\<close>

theorem reindexFindingIds_two_categories:
  assumes "groupByCategory lc issues = [g1, g2]"
    and "group_issues g1 = [a1, a2]" and "group_issues g2 = [b1, b2, b3]"
    and "distinct (map issue_id issues)"
  shows "reindexFindingIds lc (Some ''ABC'') issues
      = map (\<lambda>iss. iss\<lparr>findingId :=
               (if issue_id iss = issue_id a1 then ''ABC-0001''
                else if issue_id iss = issue_id a2 then ''ABC-0002''
                else if issue_id iss = issue_id b1 then ''ABC-1001''
                else if issue_id iss = issue_id b2 then ''ABC-1002''
                else ''ABC-1003'')\<rparr>) issues
    \<and> set issues = {a1, a2, b1, b2, b3}
    \<and> distinct (map issue_id [a1, a2, b1, b2, b3])"
proof -
  have m: "mset issues = mset [a1, a2, b1, b2, b3]"
    using mset_groupByCategory [of lc issues] assms(1-3) by simp
  have "set_mset (mset issues) = set_mset (mset [a1, a2, b1, b2, b3])"
    by (simp only: m)
  then have s: "set issues = {a1, a2, b1, b2, b3}"
    by simp
  have "mset (map issue_id issues) = image_mset issue_id (mset issues)"
    by simp
  also have "\<dots> = image_mset issue_id (mset [a1, a2, b1, b2, b3])"
    by (simp only: m)
  finally have "mset (map issue_id issues) = mset (map issue_id [a1, a2, b1, b2, b3])"
    by simp
  from mset_eq_imp_distinct_iff [OF this] assms(4)
  have d: "distinct (map issue_id [a1, a2, b1, b2, b3])" by blast
  let ?new = "\<lambda>iss. iss\<lparr>findingId :=
               (if issue_id iss = issue_id a1 then ''ABC-0001''
                else if issue_id iss = issue_id a2 then ''ABC-0002''
                else if issue_id iss = issue_id b1 then ''ABC-1001''
                else if issue_id iss = issue_id b2 then ''ABC-1002''
                else ''ABC-1003'')\<rparr>"
  have calls: "idMap ''ABC'' [g1, g2]
    = map_of (rev [(issue_id a1, ''ABC-0001''), (issue_id a2, ''ABC-0002''),
       (issue_id b1, ''ABC-1001''), (issue_id b2, ''ABC-1002''), (issue_id b3, ''ABC-1003'')])"
    unfolding idMap_def idMap_calls_2_3 [OF assms(2,3)] by simp
  have "(case idMap ''ABC'' [g1, g2] (issue_id iss) of
           Some v \<Rightarrow> iss\<lparr>findingId := v\<rparr> | None \<Rightarrow> iss) = ?new iss"
    if "iss \<in> set issues" for iss
  proof -
    from d have d': "distinct [issue_id a1, issue_id a2, issue_id b1, issue_id b2, issue_id b3]"
      by simp
    from that s have "iss \<in> {a1, a2, b1, b2, b3}"
      by (simp only:)
    then have "iss = a1 \<or> iss = a2 \<or> iss = b1 \<or> iss = b2 \<or> iss = b3"
      by (simp only: insert_iff empty_iff simp_thms)
    then have "issue_id iss = issue_id a1 \<or> issue_id iss = issue_id a2
        \<or> issue_id iss = issue_id b1 \<or> issue_id iss = issue_id b2 \<or> issue_id iss = issue_id b3"
      by (elim disjE) (simp_all only: simp_thms)
    then show ?thesis unfolding calls map_of_five [OF d'] by (elim disjE) simp_all
  qed
  then have "reindexFindingIds lc (Some ''ABC'') issues = map ?new issues"
    by (simp add: reindexFindingIds_def trim_ABC assms(1) cong: map_cong)
  with s d show ?thesis by blast
qed

lemma example_two_categories:
  "groupByCategory compare_code_units
     [newIssue 1 ''Web'', (newIssue 2 ''Auth'')\<lparr>overallRisk := ''Low''\<rparr>,
      (newIssue 3 ''Auth'')\<lparr>overallRisk := ''High''\<rparr>, newIssue 4 ''Web'',
      (newIssue 5 ''Web'')\<lparr>overallRisk := ''Critical''\<rparr>]
   = [\<lparr>group_category = ''Auth'',
        group_issues = [(newIssue 3 ''Auth'')\<lparr>overallRisk := ''High''\<rparr>,
                        (newIssue 2 ''Auth'')\<lparr>overallRisk := ''Low''\<rparr>]\<rparr>,
      \<lparr>group_category = ''Web'',
        group_issues = [(newIssue 5 ''Web'')\<lparr>overallRisk := ''Critical''\<rparr>,
                        newIssue 1 ''Web'', newIssue 4 ''Web'']\<rparr>]"
  by code_simp

theorem reindexFindingIds_two_categories_witness:
  "map findingId (reindexFindingIds compare_code_units (Some ''ABC'')
     [newIssue 1 ''Web'', (newIssue 2 ''Auth'')\<lparr>overallRisk := ''Low''\<rparr>,
      (newIssue 3 ''Auth'')\<lparr>overallRisk := ''High''\<rparr>, newIssue 4 ''Web'',
      (newIssue 5 ''Web'')\<lparr>overallRisk := ''Critical''\<rparr>])
   = [''ABC-1002'', ''ABC-0002'', ''ABC-0001'', ''ABC-1003'', ''ABC-1001'']"
proof -
  let ?xs = "[newIssue 1 ''Web'', (newIssue 2 ''Auth'')\<lparr>overallRisk := ''Low''\<rparr>,
      (newIssue 3 ''Auth'')\<lparr>overallRisk := ''High''\<rparr>, newIssue 4 ''Web'',
      (newIssue 5 ''Web'')\<lparr>overallRisk := ''Critical''\<rparr>]"
  have d: "distinct (map issue_id ?xs)"
    by (simp add: newIssue_def)
  have i1: "group_issues \<lparr>group_category = ''Auth'',
        group_issues = [(newIssue 3 ''Auth'')\<lparr>overallRisk := ''High''\<rparr>,
                        (newIssue 2 ''Auth'')\<lparr>overallRisk := ''Low''\<rparr>]\<rparr>
      = [(newIssue 3 ''Auth'')\<lparr>overallRisk := ''High''\<rparr>,
         (newIssue 2 ''Auth'')\<lparr>overallRisk := ''Low''\<rparr>]"
    by simp
  have i2: "group_issues \<lparr>group_category = ''Web'',
        group_issues = [(newIssue 5 ''Web'')\<lparr>overallRisk := ''Critical''\<rparr>,
                        newIssue 1 ''Web'', newIssue 4 ''Web'']\<rparr>
      = [(newIssue 5 ''Web'')\<lparr>overallRisk := ''Critical''\<rparr>,
                        newIssue 1 ''Web'', newIssue 4 ''Web'']"
    by simp
  from reindexFindingIds_two_categories [OF example_two_categories i1 i2 d]
  show ?thesis by (simp add: newIssue_def)
qed



section \<open>Pagination\<close>

lemma pxPerMm_pos: "0 < w \<Longrightarrow> 0 < pxPerMm w"
  by (simp add: pxPerMm_def USABLE_values)

lemma stripHeightPx_bound: "of_nat (stripHeightPx w) \<le> of_nat USABLE_HEIGHT * pxPerMm w"
proof -
  have nonneg: "0 \<le> of_nat USABLE_HEIGHT * pxPerMm w"
    by (simp add: pxPerMm_def)
  then have "0 \<le> \<lfloor>of_nat USABLE_HEIGHT * pxPerMm w\<rfloor>" by simp
  then have "(of_nat (stripHeightPx w) :: rat) = of_int \<lfloor>of_nat USABLE_HEIGHT * pxPerMm w\<rfloor>"
    unfolding stripHeightPx_def by (metis of_nat_nat)
  then show ?thesis by simp
qed

lemma lay_new_pages:
  "\<not> isFirstPage \<or> 0 < k \<Longrightarrow> lay isFirstPage k pdf ss = pdf @ map (\<lambda>s. [s]) ss"
  by (induction ss arbitrary: k pdf) (auto simp: addPage_def addImage_def)

lemma lay_first_page:
  "lay True 0 pdf (s # ss) = butlast pdf @ [last pdf @ [s]] @ map (\<lambda>s. [s]) ss"
  by (simp add: lay_new_pages addImage_def)

lemma tiles_sum: "tiles a b ss \<Longrightarrow> a + sum_list (map src_height ss) = b"
proof (induction ss arbitrary: a)
  case Nil
  then show ?case by simp
next
  case (Cons s ss)
  then have "a + src_height s + sum_list (map src_height ss) = b" by simp
  then show ?case by simp
qed

lemma slice_loop_runs:
  assumes w: "0 < w"
  shows "\<exists>strips. slice_loop w h isFirstPage srcY k pdf
            = Inr (k + length strips, lay isFirstPage k pdf strips)
          \<and> tiles srcY (max srcY h) strips
          \<and> (\<forall>s \<in> set strips. src_height s \<le> stripHeightPx w)"
proof (induction "h - srcY" arbitrary: srcY k pdf rule: less_induct)
  case less
  show ?case
  proof (cases "srcY < h")
    case False
    then have "slice_loop w h isFirstPage srcY k pdf = Inr (k + length [], lay isFirstPage k pdf [])"
      by (subst slice_loop.simps) simp
    moreover from False have "tiles srcY (max srcY h) []" by simp
    ultimately show ?thesis by (metis empty_iff list.set(1))
  next
    case True
    define t where "t = min (stripHeightPx w) (h - srcY)"
    define s where "s = \<lparr>src_y = srcY, src_height = t\<rparr>"
    define pdf2 where "pdf2 = addImage s (if \<not> isFirstPage \<or> k > 0 then addPage pdf else pdf)"
    from True stripHeightPx_pos [OF w] have t: "0 < t" "t \<le> stripHeightPx w" "srcY + t \<le> h"
      by (simp_all add: t_def)
    then have "h - (srcY + t) < h - srcY" using True by linarith
    from less [OF this, of "k + 1" pdf2]
    obtain strips where run: "slice_loop w h isFirstPage (srcY + t) (k + 1) pdf2
            = Inr (k + 1 + length strips, lay isFirstPage (k + 1) pdf2 strips)"
      and til: "tiles (srcY + t) (max (srcY + t) h) strips"
      and each: "\<forall>s \<in> set strips. src_height s \<le> stripHeightPx w"
      by blast
    from w True have draw: "drawImage w h = None"
      by (simp add: drawImage_def)
    have step: "slice_loop w h isFirstPage srcY k pdf
        = slice_loop w h isFirstPage (srcY + t) (k + 1) pdf2"
      by (subst slice_loop.simps) (simp add: True draw t_def s_def pdf2_def Let_def)
    have "slice_loop w h isFirstPage srcY k pdf
        = Inr (k + length (s # strips), lay isFirstPage k pdf (s # strips))"
      unfolding step run by (simp add: pdf2_def)
    moreover have "tiles srcY (max srcY h) (s # strips)"
      using til t True by (simp add: s_def max_def)
    moreover have "\<forall>x \<in> set (s # strips). src_height x \<le> stripHeightPx w"
      using each t by (simp add: s_def)
    ultimately show ?thesis by blast
  qed
qed

text \<open>
  A canvas of width 0 and positive height takes the second branch, and the first
  \<open>drawImage\<close> throws: nothing is added to the document.
\<close>

lemma zero_width_canvas:
  assumes "0 < canvasHeight"
  shows "addCanvasToPdf pdf 0 canvasHeight isFirstPage = Inl InvalidStateError"
proof -
  from assms have "slice_loop 0 canvasHeight isFirstPage 0 0 pdf = Inl InvalidStateError"
    by (subst slice_loop.simps) (simp add: drawImage_def)
  with assms show ?thesis
    by (simp add: addCanvasToPdf_def totalImgHeightMm_def js_divide_def pxPerMm_def)
qed

text \<open>
  C3. The canvas that \<open>renderIssuePage\<close> hands to \<open>addCanvasToPdf\<close> is the rendering of a
  container 794 pixels wide at scale 2, so its width is positive and the ratio of pixels to
  millimetres is fixed. For every canvas of positive width whose height in millimetres
  exceeds the usable page height, \<open>addCanvasToPdf\<close> returns; it places as many strips as it
  reports pages, each strip alone on a page of its own (the first on the current page when
  the canvas is the first of the document); the strips tile the rows of the canvas from row
  0 to the last in order, so their heights add up to the height of the canvas; and no strip
  is higher than the usable page height in pixels.
\<close>

theorem addCanvasToPdf_partitions:
  assumes "0 < canvasWidth"
    and "exceeds (totalImgHeightMm canvasWidth canvasHeight) (of_nat USABLE_HEIGHT)"
  shows "\<exists>strips. strips \<noteq> []
    \<and> addCanvasToPdf pdf canvasWidth canvasHeight isFirstPage
        = Inr (length strips,
            if isFirstPage then butlast pdf @ [last pdf @ [hd strips]] @ map (\<lambda>s. [s]) (tl strips)
            else pdf @ map (\<lambda>s. [s]) strips)
    \<and> tiles 0 canvasHeight strips
    \<and> sum_list (map src_height strips) = canvasHeight
    \<and> (\<forall>s \<in> set strips.
          of_nat (src_height s) \<le> of_nat USABLE_HEIGHT * pxPerMm canvasWidth)"
proof -
  from assms(1) have px: "0 < pxPerMm canvasWidth" by (rule pxPerMm_pos)
  from assms(2) px have no_fit: "\<not> at_most (totalImgHeightMm canvasWidth canvasHeight) (of_nat USABLE_HEIGHT)"
    by (simp add: totalImgHeightMm_def js_divide_def)
  from assms(2) px have hpos: "0 < canvasHeight"
    by (cases "canvasHeight = 0") (simp_all add: totalImgHeightMm_def js_divide_def USABLE_values)
  from slice_loop_runs [OF assms(1), of canvasHeight isFirstPage 0 0 pdf]
  obtain strips where run: "slice_loop canvasWidth canvasHeight isFirstPage 0 0 pdf
            = Inr (length strips, lay isFirstPage 0 pdf strips)"
    and til: "tiles 0 canvasHeight strips"
    and each: "\<forall>s \<in> set strips. src_height s \<le> stripHeightPx canvasWidth"
    by auto
  from til hpos have ne: "strips \<noteq> []" by (cases strips) auto
  have pages: "lay isFirstPage 0 pdf strips
      = (if isFirstPage then butlast pdf @ [last pdf @ [hd strips]] @ map (\<lambda>s. [s]) (tl strips)
         else pdf @ map (\<lambda>s. [s]) strips)"
  proof (cases isFirstPage)
    case True
    with ne lay_first_page [of pdf "hd strips" "tl strips"] show ?thesis by simp
  next
    case False
    then show ?thesis by (simp add: lay_new_pages)
  qed
  have bound: "of_nat (src_height s) \<le> of_nat USABLE_HEIGHT * pxPerMm canvasWidth"
    if "s \<in> set strips" for s
  proof -
    from each that have le: "src_height s \<le> stripHeightPx canvasWidth" by blast
    then have "(of_nat (src_height s) :: rat) \<le> of_nat (stripHeightPx canvasWidth)"
      by simp
    with stripHeightPx_bound [of canvasWidth] show ?thesis by linarith
  qed
  from tiles_sum [OF til] have "sum_list (map src_height strips) = canvasHeight" by simp
  with ne run til pages bound no_fit show ?thesis
    unfolding addCanvasToPdf_def by auto
qed

lemma example_canvas:
  "pxPerMm 186 = 1" "stripHeightPx 186 = 271"
  "totalImgHeightMm 186 600 = Finite 600"
  by (simp_all add: pxPerMm_def stripHeightPx_def totalImgHeightMm_def js_divide_def USABLE_values)

lemma example_slices:
  "addCanvasToPdf [[]] 186 600 True
      = Inr (3, [[\<lparr>src_y = 0, src_height = 271\<rparr>],
                 [\<lparr>src_y = 271, src_height = 271\<rparr>],
                 [\<lparr>src_y = 542, src_height = 58\<rparr>]])"
proof -
  have d: "drawImage 186 600 = None" by (simp add: drawImage_def)
  have "slice_loop 186 600 True 0 0 [[]]
      = slice_loop 186 600 True 271 1 [[\<lparr>src_y = 0, src_height = 271\<rparr>]]"
    by (subst slice_loop.simps)
      (simp add: example_canvas d addImage_def addPage_def Let_def
        numeral_2_eq_2 numeral_3_eq_3)
  also have "\<dots> = slice_loop 186 600 True 542 2
          [[\<lparr>src_y = 0, src_height = 271\<rparr>], [\<lparr>src_y = 271, src_height = 271\<rparr>]]"
    by (subst slice_loop.simps)
      (simp add: example_canvas d addImage_def addPage_def Let_def
        numeral_2_eq_2 numeral_3_eq_3)
  also have "\<dots> = slice_loop 186 600 True 600 3
          [[\<lparr>src_y = 0, src_height = 271\<rparr>], [\<lparr>src_y = 271, src_height = 271\<rparr>],
           [\<lparr>src_y = 542, src_height = 58\<rparr>]]"
    by (subst slice_loop.simps)
      (simp add: example_canvas d addImage_def addPage_def Let_def
        numeral_2_eq_2 numeral_3_eq_3)
  also have "\<dots> = Inr (3,
          [[\<lparr>src_y = 0, src_height = 271\<rparr>], [\<lparr>src_y = 271, src_height = 271\<rparr>],
           [\<lparr>src_y = 542, src_height = 58\<rparr>]])"
    by (subst slice_loop.simps) (simp add: numeral_3_eq_3)
  finally show ?thesis
    by (simp add: addCanvasToPdf_def example_canvas USABLE_values)
qed

lemma rendered_canvas:
  "RENDER_WIDTH_PX * SCALE = 1588"
  "stripHeightPx 1588 = 2313"
  "drawImage 1588 5000 = None"
  "\<not> at_most (totalImgHeightMm 1588 5000) (of_nat USABLE_HEIGHT)"
proof -
  show "RENDER_WIDTH_PX * SCALE = 1588" by (simp add: RENDER_WIDTH_PX_def SCALE_def)
  have "\<lfloor>(215174::rat) / 93\<rfloor> = 2313" by (rule floor_unique) simp_all
  then show "stripHeightPx 1588 = 2313"
    by (simp add: stripHeightPx_def pxPerMm_def USABLE_values)
  show "drawImage 1588 5000 = None" by (simp add: drawImage_def)
  show "\<not> at_most (totalImgHeightMm 1588 5000) (of_nat USABLE_HEIGHT)"
    by (simp add: totalImgHeightMm_def js_divide_def pxPerMm_def USABLE_values)
qed

lemma rendered_slices:
  "addCanvasToPdf [[]] (RENDER_WIDTH_PX * SCALE) 5000 True
      = Inr (3, [[\<lparr>src_y = 0, src_height = 2313\<rparr>],
                 [\<lparr>src_y = 2313, src_height = 2313\<rparr>],
                 [\<lparr>src_y = 4626, src_height = 374\<rparr>]])"
proof -
  have "slice_loop 1588 5000 True 0 0 [[]]
      = slice_loop 1588 5000 True 2313 1 [[\<lparr>src_y = 0, src_height = 2313\<rparr>]]"
    by (subst slice_loop.simps)
      (simp add: rendered_canvas addImage_def addPage_def Let_def
        numeral_2_eq_2 numeral_3_eq_3)
  also have "\<dots> = slice_loop 1588 5000 True 4626 2
          [[\<lparr>src_y = 0, src_height = 2313\<rparr>], [\<lparr>src_y = 2313, src_height = 2313\<rparr>]]"
    by (subst slice_loop.simps)
      (simp add: rendered_canvas addImage_def addPage_def Let_def
        numeral_2_eq_2 numeral_3_eq_3)
  also have "\<dots> = slice_loop 1588 5000 True 5000 3
          [[\<lparr>src_y = 0, src_height = 2313\<rparr>], [\<lparr>src_y = 2313, src_height = 2313\<rparr>],
           [\<lparr>src_y = 4626, src_height = 374\<rparr>]]"
    by (subst slice_loop.simps)
      (simp add: rendered_canvas addImage_def addPage_def Let_def
        numeral_2_eq_2 numeral_3_eq_3)
  also have "\<dots> = Inr (3,
          [[\<lparr>src_y = 0, src_height = 2313\<rparr>], [\<lparr>src_y = 2313, src_height = 2313\<rparr>],
           [\<lparr>src_y = 4626, src_height = 374\<rparr>]])"
    by (subst slice_loop.simps) (simp add: numeral_3_eq_3)
  finally show ?thesis
    by (simp add: addCanvasToPdf_def rendered_canvas)
qed

theorem addCanvasToPdf_partitions_witness:
  "0 < RENDER_WIDTH_PX * SCALE
   \<and> exceeds (totalImgHeightMm (RENDER_WIDTH_PX * SCALE) 5000) (of_nat USABLE_HEIGHT)
   \<and> (\<exists>strips. addCanvasToPdf [[]] (RENDER_WIDTH_PX * SCALE) 5000 True
          = Inr (length strips, butlast [[]] @ [last [[]] @ [hd strips]] @ map (\<lambda>s. [s]) (tl strips))
        \<and> tiles 0 5000 strips \<and> sum_list (map src_height strips) = 5000)"
proof -
  have w: "0 < RENDER_WIDTH_PX * SCALE" by (simp add: rendered_canvas)
  have h: "exceeds (totalImgHeightMm (RENDER_WIDTH_PX * SCALE) 5000) (of_nat USABLE_HEIGHT)"
    by (simp add: rendered_canvas totalImgHeightMm_def js_divide_def pxPerMm_def USABLE_values)
  from addCanvasToPdf_partitions [OF w h, of "[[]]" True]
  have "\<exists>strips. addCanvasToPdf [[]] (RENDER_WIDTH_PX * SCALE) 5000 True
          = Inr (length strips, butlast [[]] @ [last [[]] @ [hd strips]] @ map (\<lambda>s. [s]) (tl strips))
        \<and> tiles 0 5000 strips \<and> sum_list (map src_height strips) = 5000"
    by simp blast
  with w h show ?thesis by blast
qed



section \<open>Facts about the patterns\<close>

lemma strip_prefix_append: "strip_prefix lit (lit @ r) = Some r"
  by (simp add: strip_prefix_def)

lemma strip_prefix_Some: "strip_prefix lit x = Some r \<longleftrightarrow> x = lit @ r"
proof
  assume "strip_prefix lit x = Some r"
  then have "take (length lit) x = lit" "r = drop (length lit) x"
    by (auto simp: strip_prefix_def split: if_splits)
  then show "x = lit @ r"
    by (metis append_take_drop_id)
next
  assume "x = lit @ r"
  then show "strip_prefix lit x = Some r" by (simp add: strip_prefix_append)
qed

lemma strip_prefix_None: "strip_prefix lit x = None \<longleftrightarrow> (\<forall>r. x \<noteq> lit @ r)"
  using strip_prefix_Some [of lit x] by (cases "strip_prefix lit x") auto

lemma takeWhile_stop: "\<not> P y \<Longrightarrow> takeWhile P (xs @ y # ys) = takeWhile P xs"
  by (induction xs) auto

lemma dropWhile_stop: "\<not> P y \<Longrightarrow> dropWhile P (xs @ y # ys) = dropWhile P xs @ y # ys"
  by (induction xs) auto

lemma trim_space: "is_space c \<Longrightarrow> trim [c] = []"
  by (simp add: trim_def trimStart_def trimEnd_def)

lemma value_after_blank:
  assumes "dropWhile is_space s = []" "value_after s = Some (captured, rest)"
  shows "trim captured = []"
proof -
  from assms(1) have all: "\<forall>c \<in> set s. is_space c"
    by (simp add: dropWhile_eq_Nil_conv)
  let ?kept = "rev (dropWhile is_line_terminator (rev s))"
  from assms have k: "?kept \<noteq> []" and c: "captured = [last ?kept]"
    by (auto simp: value_after_def Let_def split: if_splits)
  from k have "last ?kept \<in> set ?kept" by (rule last_in_set)
  then have "last ?kept \<in> set (dropWhile is_line_terminator (rev s))" by simp
  then have "last ?kept \<in> set (rev s)" by (rule set_dropWhileD)
  with all have "is_space (last ?kept)" by simp
  with c show ?thesis by (simp add: trim_space)
qed

lemma value_after_extend:
  assumes "value_after s = Some (captured, rest)" "trim captured \<noteq> []"
  shows "value_after (s @ CHR 0x0A # t) = Some (captured, rest @ CHR 0x0A # t)"
proof -
  from assms value_after_blank have ne: "dropWhile is_space s \<noteq> []" by blast
  then obtain x where x: "x \<in> set s" "\<not> is_space x"
    by (auto simp: dropWhile_eq_Nil_conv)
  then have d: "dropWhile is_space (s @ CHR 0x0A # t) = dropWhile is_space s @ CHR 0x0A # t"
    by (simp add: dropWhile_append1)
  have tw: "takeWhile (\<lambda>c. \<not> is_line_terminator c) (xs @ CHR 0x0A # t)
      = takeWhile (\<lambda>c. \<not> is_line_terminator c) xs" for xs
    by (rule takeWhile_stop) (simp add: is_line_terminator_def)
  have dw: "dropWhile (\<lambda>c. \<not> is_line_terminator c) (xs @ CHR 0x0A # t)
      = dropWhile (\<lambda>c. \<not> is_line_terminator c) xs @ CHR 0x0A # t" for xs
    by (rule dropWhile_stop) (simp add: is_line_terminator_def)
  from assms(1) ne have c: "captured = takeWhile (\<lambda>c. \<not> is_line_terminator c) (dropWhile is_space s)"
    and r: "rest = dropWhile (\<lambda>c. \<not> is_line_terminator c) (dropWhile is_space s)"
    by (auto simp: value_after_def Let_def)
  show ?thesis
    unfolding value_after_def d Let_def using ne c r
    by (simp add: tw dw)
qed

lemma meta_pattern_extend:
  assumes "meta_pattern key x = Some (captured, rest)" "trim captured \<noteq> []"
  shows "meta_pattern key (x @ CHR 0x0A # t) = Some (captured, rest @ CHR 0x0A # t)"
proof -
  from assms(1) obtain r where r: "x = key @ r" and v: "value_after r = Some (captured, rest)"
    by (auto simp: meta_pattern_def strip_prefix_Some split: option.splits)
  from r have "strip_prefix key (x @ CHR 0x0A # t) = Some (r @ CHR 0x0A # t)"
    by (simp add: strip_prefix_append)
  with value_after_extend [OF v assms(2)] show ?thesis
    by (simp add: meta_pattern_def)
qed

lemma meta_pattern_Nil: "key \<noteq> [] \<Longrightarrow> meta_pattern key [] = None"
  by (simp add: meta_pattern_def strip_prefix_def)

lemma search_lines_occurrence:
  "search_lines (meta_pattern key) b x = Some v \<Longrightarrow>
   (b \<and> (\<exists>w. x = key @ w)) \<or> (\<exists>u lt w. x = u @ lt # key @ w \<and> is_line_terminator lt)"
proof (induction x arbitrary: b)
  case Nil
  then show ?case
    by (auto simp: meta_pattern_def strip_prefix_Some split: if_splits option.splits)
next
  case (Cons c cs)
  show ?case
  proof (cases "b \<and> meta_pattern key (c # cs) \<noteq> None")
    case True
    then show ?thesis
      by (auto simp: meta_pattern_def strip_prefix_Some split: option.splits)
  next
    case False
    with Cons.prems have "search_lines (meta_pattern key) (is_line_terminator c) cs = Some v"
      by (auto split: if_splits option.splits)
    from Cons.IH [OF this] show ?thesis
    proof
      assume "is_line_terminator c \<and> (\<exists>w. cs = key @ w)"
      then obtain w where "c # cs = [] @ c # key @ w" "is_line_terminator c" by auto
      then show ?thesis by blast
    next
      assume "\<exists>u lt w. cs = u @ lt # key @ w \<and> is_line_terminator lt"
      then obtain u lt w where "c # cs = (c # u) @ lt # key @ w" "is_line_terminator lt" by auto
      then show ?thesis by blast
    qed
  qed
qed

text \<open>
  A key of a metadata line has no line terminator in it and does not begin with white space.
\<close>

definition plain_key :: "string \<Rightarrow> bool" where
  "plain_key key \<longleftrightarrow>
     key \<noteq> [] \<and> \<not> is_space (hd key) \<and> list_all (\<lambda>c. \<not> is_line_terminator c) key"

lemma key_before_terminator:
  assumes "key @ r = u @ lt # key @ w" "is_line_terminator lt" "plain_key key"
  shows "\<exists>v. r = v @ lt # key @ w"
proof -
  from assms(1) obtain us where
    "(key = u @ us \<and> us @ r = lt # key @ w) \<or> (key @ us = u \<and> r = us @ lt # key @ w)"
    by (auto simp: append_eq_append_conv2)
  then show ?thesis
  proof
    assume a: "key = u @ us \<and> us @ r = lt # key @ w"
    show ?thesis
    proof (cases us)
      case Nil
      with a show ?thesis by auto
    next
      case (Cons x xs)
      with a have "lt \<in> set key" by auto
      with assms(2,3) show ?thesis by (auto simp: plain_key_def list_all_iff)
    qed
  next
    assume "key @ us = u \<and> r = us @ lt # key @ w"
    then show ?thesis by blast
  qed
qed

lemma meta_pattern_fails_later:
  assumes none: "meta_pattern key x = None"
    and later: "x = u @ lt # key @ w" "is_line_terminator lt"
    and key: "plain_key key"
  shows "meta_pattern key (x @ CHR 0x0A # t) = None"
proof (cases "strip_prefix key (x @ CHR 0x0A # t)")
  case None
  then show ?thesis by (simp add: meta_pattern_def)
next
  case (Some r')
  then have e: "x @ CHR 0x0A # t = key @ r'" by (simp add: strip_prefix_Some)
  have "\<exists>r. x = key @ r"
  proof -
    from e obtain us where
      "(x = key @ us \<and> us @ CHR 0x0A # t = r') \<or> (x @ us = key \<and> CHR 0x0A # t = us @ r')"
      by (auto simp: append_eq_append_conv2)
    then show ?thesis
    proof
      assume "x = key @ us \<and> us @ CHR 0x0A # t = r'"
      then show ?thesis by blast
    next
      assume a: "x @ us = key \<and> CHR 0x0A # t = us @ r'"
      from later have "lt \<in> set x" by simp
      with a have "lt \<in> set key" by auto
      with later(2) key show ?thesis by (auto simp: plain_key_def list_all_iff)
    qed
  qed
  then obtain r where r: "x = key @ r" by blast
  with later(1) have "key @ r = u @ lt # key @ w" by simp
  from key_before_terminator [OF this later(2) key] obtain v where v: "r = v @ lt # key @ w" by blast
  from key have "hd key \<in> set key" "\<not> is_space (hd key)" by (auto simp: plain_key_def)
  with v have "\<exists>c \<in> set r. \<not> is_space c" by auto
  then have "dropWhile is_space r \<noteq> []" by (auto simp: dropWhile_eq_Nil_conv)
  then have "value_after r \<noteq> None" by (simp add: value_after_def Let_def)
  with r none show ?thesis by (simp add: meta_pattern_def strip_prefix_append)
qed

lemma search_lines_extend:
  assumes key: "plain_key key"
  shows "search_lines (meta_pattern key) b x = Some (captured, rest) \<Longrightarrow> trim captured \<noteq> [] \<Longrightarrow>
    search_lines (meta_pattern key) b (x @ CHR 0x0A # t) = Some (captured, rest @ CHR 0x0A # t)"
proof (induction x arbitrary: b)
  case Nil
  with key show ?case by (auto simp: meta_pattern_Nil plain_key_def split: if_splits)
next
  case (Cons c cs)
  show ?case
  proof (cases "b \<and> meta_pattern key (c # cs) \<noteq> None")
    case True
    with Cons.prems(1) have "meta_pattern key (c # cs) = Some (captured, rest)" by auto
    from meta_pattern_extend [OF this Cons.prems(2)] True show ?thesis by simp
  next
    case False
    with Cons.prems(1) have s: "search_lines (meta_pattern key) (is_line_terminator c) cs
        = Some (captured, rest)"
      by (auto split: if_splits option.splits)
    from Cons.IH [OF s Cons.prems(2)]
    have ext: "search_lines (meta_pattern key) (is_line_terminator c) (cs @ CHR 0x0A # t)
        = Some (captured, rest @ CHR 0x0A # t)" .
    show ?thesis
    proof (cases b)
      case False
      with ext show ?thesis by simp
    next
      case True
      with \<open>\<not> (b \<and> meta_pattern key (c # cs) \<noteq> None)\<close>
      have none: "meta_pattern key (c # cs) = None" by blast
      from search_lines_occurrence [OF s]
      have "\<exists>u lt w. c # cs = u @ lt # key @ w \<and> is_line_terminator lt"
      proof
        assume "is_line_terminator c \<and> (\<exists>w. cs = key @ w)"
        then obtain w where "c # cs = [] @ c # key @ w" "is_line_terminator c" by auto
        then show ?thesis by blast
      next
        assume "\<exists>u lt w. cs = u @ lt # key @ w \<and> is_line_terminator lt"
        then obtain u lt w where "c # cs = (c # u) @ lt # key @ w" "is_line_terminator lt" by auto
        then show ?thesis by blast
      qed
      then obtain u lt w where "c # cs = u @ lt # key @ w" "is_line_terminator lt" by blast
      from meta_pattern_fails_later [OF none this key]
      have "meta_pattern key ((c # cs) @ CHR 0x0A # t) = None" .
      with ext show ?thesis by simp
    qed
  qed
qed

lemma meta_field_first_match:
  assumes "plain_key key" "meta_field key d \<noteq> []"
  shows "meta_field key (d @ CHR 0x0A # appended) = meta_field key d"
proof -
  from assms(2) obtain captured rest where
    s: "search_lines (meta_pattern key) True d = Some (captured, rest)" and t: "trim captured \<noteq> []"
    by (auto simp: meta_field_def split: option.splits)
  from search_lines_extend [OF assms(1) s t, of appended] s show ?thesis
    by (simp add: meta_field_def)
qed

lemma plain_keys:
  "plain_key ''Overall Risk:''" "plain_key ''Impact:''" "plain_key ''Exploitability:''"
  "plain_key ''Finding ID:''" "plain_key ''Component:''" "plain_key ''Category:''"
  "plain_key ''Status:''"
  by code_simp+

lemma parseIssue_fields:
  "overallRisk (parseIssue s) = meta_field ''Overall Risk:'' s"
  "impact (parseIssue s) = meta_field ''Impact:'' s"
  "exploitability (parseIssue s) = meta_field ''Exploitability:'' s"
  "findingId (parseIssue s) = meta_field ''Finding ID:'' s"
  "component (parseIssue s) = meta_field ''Component:'' s"
  "category (parseIssue s) = meta_field ''Category:'' s"
  "status (parseIssue s) = meta_field ''Status:'' s"
  by (simp_all add: parseIssue_def Let_def)

text \<open>
  C4, as the code has it: the first match wins. \<open>match\<close> without the flag \<open>g\<close> returns the
  first match in the document, for each of the seven keys alike. So a field that a document
  sets to a value that is not empty keeps that value whatever lines are appended to the
  document, further lines with the same key among them.
\<close>

theorem parseIssue_first_match_wins:
  "(overallRisk (parseIssue d) \<noteq> [] \<longrightarrow>
      overallRisk (parseIssue (d @ CHR 0x0A # appended)) = overallRisk (parseIssue d))
   \<and> (impact (parseIssue d) \<noteq> [] \<longrightarrow>
      impact (parseIssue (d @ CHR 0x0A # appended)) = impact (parseIssue d))
   \<and> (exploitability (parseIssue d) \<noteq> [] \<longrightarrow>
      exploitability (parseIssue (d @ CHR 0x0A # appended)) = exploitability (parseIssue d))
   \<and> (findingId (parseIssue d) \<noteq> [] \<longrightarrow>
      findingId (parseIssue (d @ CHR 0x0A # appended)) = findingId (parseIssue d))
   \<and> (component (parseIssue d) \<noteq> [] \<longrightarrow>
      component (parseIssue (d @ CHR 0x0A # appended)) = component (parseIssue d))
   \<and> (category (parseIssue d) \<noteq> [] \<longrightarrow>
      category (parseIssue (d @ CHR 0x0A # appended)) = category (parseIssue d))
   \<and> (status (parseIssue d) \<noteq> [] \<longrightarrow>
      status (parseIssue (d @ CHR 0x0A # appended)) = status (parseIssue d))"
  unfolding parseIssue_fields
  using meta_field_first_match [OF plain_keys(1), of d appended]
    meta_field_first_match [OF plain_keys(2), of d appended]
    meta_field_first_match [OF plain_keys(3), of d appended]
    meta_field_first_match [OF plain_keys(4), of d appended]
    meta_field_first_match [OF plain_keys(5), of d appended]
    meta_field_first_match [OF plain_keys(6), of d appended]
    meta_field_first_match [OF plain_keys(7), of d appended]
  by blast

lemma example_status:
  "status (parseIssue ''Status: Open'') = ''Open''"
  "status (parseIssue ''Status: Closed'') = ''Closed''"
  "''Status: Open'' @ CHR 0x0A # ''Status: Closed'' = ''Status: Open\<newline>Status: Closed''"
  by code_simp+

theorem parseIssue_first_match_wins_witness:
  "status (parseIssue ''Status: Open'') \<noteq> []
   \<and> status (parseIssue ''Status: Open\<newline>Status: Closed'') = ''Open''"
proof -
  have h: "status (parseIssue ''Status: Open'') \<noteq> []"
    by (simp add: example_status)
  from parseIssue_first_match_wins [of "''Status: Open''" "''Status: Closed''"] h
  have "status (parseIssue (''Status: Open'' @ CHR 0x0A # ''Status: Closed''))
      = status (parseIssue ''Status: Open'')"
    by blast
  with h show ?thesis by (simp add: example_status)
qed

text \<open>
  C4 as the specification words it lets the last of two lines with the same key win. The
  second line alone sets the status \<open>Closed\<close>; behind a first line it sets nothing.
\<close>

theorem last_match_counterexample:
  "status (parseIssue ''Status: Closed'') = ''Closed''
   \<and> status (parseIssue ''Status: Open\<newline>Status: Closed'') = ''Open''"
  by code_simp



section \<open>Round trip through the template\<close>

text \<open>
  C2 fails on an issue with a value in every field. \<open>issueToMarkdown\<close> writes the evidence
  as a line of its own under the description; \<open>parseIssue\<close> reads that line into \<open>evidence\<close>
  and leaves it in the text of the section, so the description comes back with the evidence
  line appended. Every other field comes back as it was.
\<close>

theorem round_trip_description:
  "description example_issue = ''MD5 is used.''
   \<and> parseIssue (issueToMarkdown example_issue)
     = \<lparr>title = ''Weak hash'', overallRisk = ''High'', impact = ''High'',
        exploitability = ''Low'', findingId = ''ABC-0001'', component = ''auth'',
        category = ''Security'', status = ''New'', impactDetails = ''- leak'',
        description = ''MD5 is used.\<newline>\<newline>Evidence: auth.py'', evidence = ''auth.py'',
        codeExample = ''h = md5(p)'', codeLanguage = ''python'',
        exampleScenario = ''An attacker cracks it.'', recommendation = ''- use bcrypt'',
        extraRows = [\<lparr>row_title = ''Other'', row_severity = ''Low''\<rparr>]\<rparr>"
  by code_simp

section \<open>Defaults of the parser\<close>

lemma meta_pattern_sublist:
  "meta_pattern key x = Some v \<Longrightarrow> sublist key x"
  by (auto simp: meta_pattern_def strip_prefix_Some split: option.splits)

lemma search_lines_absent:
  "\<not> sublist key s \<Longrightarrow> search_lines (meta_pattern key) b s = None"
proof (induction s arbitrary: b)
  case Nil
  then show ?case using meta_pattern_sublist [of key "[]"]
    by (cases "meta_pattern key []") auto
next
  case (Cons c cs)
  then have "\<not> sublist key cs" and n: "\<not> sublist key (c # cs)"
    by (auto simp: sublist_Cons_right)
  with Cons.IH have "search_lines (meta_pattern key) (is_line_terminator c) cs = None" by blast
  moreover from n meta_pattern_sublist [of key "c # cs"] have "meta_pattern key (c # cs) = None"
    by (cases "meta_pattern key (c # cs)") auto
  ultimately show ?case by simp
qed

lemma search_all_absent:
  "\<not> sublist key s \<Longrightarrow> search_all (meta_pattern key) s = None"
proof (induction s)
  case Nil
  then show ?case using meta_pattern_sublist [of key "[]"]
    by (cases "meta_pattern key []") auto
next
  case (Cons c cs)
  then have "\<not> sublist key cs" and n: "\<not> sublist key (c # cs)"
    by (auto simp: sublist_Cons_right)
  with Cons.IH have "search_all (meta_pattern key) cs = None" by blast
  moreover from n meta_pattern_sublist [of key "c # cs"] have "meta_pattern key (c # cs) = None"
    by (cases "meta_pattern key (c # cs)") auto
  ultimately show ?case by simp
qed

lemma meta_field_absent: "\<not> sublist key s \<Longrightarrow> meta_field key s = []"
  by (simp add: meta_field_def search_lines_absent)

lemma title_pattern_sublist:
  assumes "title_pattern x = Some v"
  shows "sublist ''Issue title:'' x"
proof -
  from assms obtain c r where x: "x = c # r"
    by (cases x) (auto simp: title_pattern_def)
  from assms x obtain rest where "dropWhile is_space r = ''Issue title:'' @ rest"
    by (auto simp: title_pattern_def Let_def strip_prefix_Some split: if_splits option.splits)
  then have "r = takeWhile is_space r @ ''Issue title:'' @ rest"
    by (metis takeWhile_dropWhile_id)
  with x have "x = (c # takeWhile is_space r) @ ''Issue title:'' @ rest"
    by simp
  then show ?thesis unfolding sublist_def by blast
qed

lemma title_absent:
  "\<not> sublist ''Issue title:'' s \<Longrightarrow> search_lines title_pattern b s = None"
proof (induction s arbitrary: b)
  case Nil
  then show ?case by (simp add: title_pattern_def)
next
  case (Cons c cs)
  then have "\<not> sublist ''Issue title:'' cs" and n: "\<not> sublist ''Issue title:'' (c # cs)"
    by (auto simp: sublist_Cons_right)
  with Cons.IH have "search_lines title_pattern (is_line_terminator c) cs = None" by blast
  moreover from n title_pattern_sublist [of "c # cs"] have "title_pattern (c # cs) = None"
    by (cases "title_pattern (c # cs)") auto
  ultimately show ?case by simp
qed

lemma additional_captures_absent:
  "\<not> sublist ''Additional Issue:'' s \<Longrightarrow> additional_captures b s = []"
proof (induction s arbitrary: b)
  case Nil
  then show ?case by simp
next
  case (Cons c cs)
  then have "\<not> sublist ''Additional Issue:'' cs" and n: "\<not> sublist ''Additional Issue:'' (c # cs)"
    by (auto simp: sublist_Cons_right)
  with Cons.IH have "additional_captures (is_line_terminator c) cs = []" by blast
  moreover from n meta_pattern_sublist [of "''Additional Issue:''" "c # cs"]
  have "meta_pattern ''Additional Issue:'' (c # cs) = None"
    by (cases "meta_pattern ''Additional Issue:'' (c # cs)") auto
  ultimately show ?case by simp
qed

lemma store_lookup:
  "store k' v' sections k = Some v \<Longrightarrow> k = k' \<or> sections k = Some v"
  by (auto simp: store_def split: if_splits)

lemma save_section_lookup:
  "save_section currentKey currentLines sections k = Some v \<Longrightarrow>
   currentKey = Some k \<or> sections k = Some v"
  by (auto simp: save_section_def split: option.splits dest: store_lookup)

lemma sections_loop_keys:
  "sections_loop currentKey currentLines sections lines k = Some v \<Longrightarrow>
   sections k \<noteq> None \<or> currentKey = Some k
   \<or> k \<in> set (List.map_filter (\<lambda>line. map_option (\<lambda>h. toLowerCase (trim h)) (heading_match line)) lines)"
proof (induction lines arbitrary: currentKey currentLines sections)
  case Nil
  then show ?case by (auto dest: save_section_lookup)
next
  case (Cons line lines)
  show ?case
  proof (cases "heading_match line")
    case None
    with Cons.prems Cons.IH [of currentKey "currentLines @ [line]" sections]
      Cons.IH [of currentKey currentLines sections]
    show ?thesis by (auto simp: List.map_filter_simps split: if_splits)
  next
    case (Some h)
    with Cons.prems have "sections_loop (Some (toLowerCase (trim h))) []
        (save_section currentKey currentLines sections) lines k = Some v" by simp
    from Cons.IH [OF this] Some show ?thesis
      by (auto simp: List.map_filter_simps dest: save_section_lookup)
  qed
qed

lemma splitSections_absent:
  "k \<notin> set (section_headings s) \<Longrightarrow> splitSections s k = None"
proof (rule ccontr)
  assume a: "k \<notin> set (section_headings s)" and "splitSections s k \<noteq> None"
  then obtain v where "sections_loop None [] Map.empty (split_on (CHR 0x0A) s) k = Some v"
    by (auto simp: splitSections_def)
  from sections_loop_keys [OF this] a show False
    by (simp add: section_headings_def)
qed

lemma split_on_absent: "d \<notin> set s \<Longrightarrow> split_on d s = [s]"
  by (induction s) auto

lemma extra_row_no_pipe:
  "CHR ''|'' \<notin> set v \<Longrightarrow> extra_row v = \<lparr>row_title = trim v, row_severity = ''Medium''\<rparr>"
proof -
  have m: "trim ''Medium'' = ''Medium''" by code_simp
  assume "CHR ''|'' \<notin> set v"
  then show ?thesis
    by (simp add: extra_row_def split_on_absent or_else_def m)
qed

lemma additional_captures_one_line:
  assumes "v \<noteq> []" "\<not> is_space (hd v)" "list_all (\<lambda>c. \<not> is_line_terminator c) v"
  shows "additional_captures True (''Additional Issue: '' @ v) = [v]"
proof -
  have sp: "is_space (CHR '' '')" by (simp add: is_space_def)
  from assms(1,2) have d: "dropWhile is_space (CHR '' '' # v) = v"
    using sp by (cases v) auto
  from assms(3) have t: "takeWhile (\<lambda>c. \<not> is_line_terminator c) v = v"
    and r: "dropWhile (\<lambda>c. \<not> is_line_terminator c) v = []"
    by (simp_all add: list_all_iff)
  have "value_after (CHR '' '' # v) = Some (v, [])"
    unfolding value_after_def Let_def d using assms(1) by (simp add: t r)
  moreover have "strip_prefix ''Additional Issue:'' (''Additional Issue: '' @ v) = Some (CHR '' '' # v)"
    by (simp add: strip_prefix_def)
  ultimately have "meta_pattern ''Additional Issue:'' (''Additional Issue: '' @ v) = Some (v, [])"
    by (simp add: meta_pattern_def)
  then show ?thesis by simp
qed

lemma parseIssue_empty:
  "parseIssue [] = \<lparr>title = [], overallRisk = [], impact = [], exploitability = [],
      findingId = [], component = [], category = [], status = [], impactDetails = [],
      description = [], evidence = [], codeExample = [], codeLanguage = [],
      exampleScenario = [], recommendation = [], extraRows = []\<rparr>"
  by code_simp

text \<open>
  What holds of the defaults on every string. \<open>parseIssue\<close> is a total function: on every
  string it returns a record. On the empty string every field is empty. On any string, a
  field is empty when the marker of its pattern occurs nowhere in the text, or, for a field
  read from a section, when no heading of the document gives the key of that section;
  \<open>extraRows\<close> is empty when \<open>Additional Issue:\<close> occurs nowhere; a captured value without
  a pipe gives the row with its trimmed text as title and the severity \<open>Medium\<close>, and a
  document that is one such line gives exactly that row.
\<close>

theorem parseIssue_defaults:
  "parseIssue [] = \<lparr>title = [], overallRisk = [], impact = [], exploitability = [],
      findingId = [], component = [], category = [], status = [], impactDetails = [],
      description = [], evidence = [], codeExample = [], codeLanguage = [],
      exampleScenario = [], recommendation = [], extraRows = []\<rparr>
   \<and> (\<not> sublist ''Issue title:'' s \<longrightarrow> title (parseIssue s) = [])
   \<and> (\<not> sublist ''Overall Risk:'' s \<longrightarrow> overallRisk (parseIssue s) = [])
   \<and> (\<not> sublist ''Impact:'' s \<longrightarrow> impact (parseIssue s) = [])
   \<and> (\<not> sublist ''Exploitability:'' s \<longrightarrow> exploitability (parseIssue s) = [])
   \<and> (\<not> sublist ''Finding ID:'' s \<longrightarrow> findingId (parseIssue s) = [])
   \<and> (\<not> sublist ''Component:'' s \<longrightarrow> component (parseIssue s) = [])
   \<and> (\<not> sublist ''Category:'' s \<longrightarrow> category (parseIssue s) = [])
   \<and> (\<not> sublist ''Status:'' s \<longrightarrow> status (parseIssue s) = [])
   \<and> (''impact details'' \<notin> set (section_headings s) \<longrightarrow> impactDetails (parseIssue s) = [])
   \<and> (''description'' \<notin> set (section_headings s) \<longrightarrow>
        description (parseIssue s) = [] \<and> evidence (parseIssue s) = [])
   \<and> (''code example'' \<notin> set (section_headings s) \<longrightarrow>
        codeExample (parseIssue s) = [] \<and> codeLanguage (parseIssue s) = [])
   \<and> (''example issue scenario'' \<notin> set (section_headings s) \<longrightarrow>
        exampleScenario (parseIssue s) = [])
   \<and> (''recommendation'' \<notin> set (section_headings s) \<longrightarrow> recommendation (parseIssue s) = [])
   \<and> (\<not> sublist ''Additional Issue:'' s \<longrightarrow> extraRows (parseIssue s) = [])
   \<and> (CHR ''|'' \<notin> set v \<longrightarrow> extra_row v = \<lparr>row_title = trim v, row_severity = ''Medium''\<rparr>)
   \<and> (v \<noteq> [] \<and> \<not> is_space (hd v) \<and> list_all (\<lambda>c. \<not> is_line_terminator c) v \<and> CHR ''|'' \<notin> set v
        \<longrightarrow> extraRows (parseIssue (''Additional Issue: '' @ v))
            = [\<lparr>row_title = trim v, row_severity = ''Medium''\<rparr>])"
proof -
  have t: "\<not> sublist ''Issue title:'' s \<longrightarrow> title (parseIssue s) = []"
    by (simp add: parseIssue_def Let_def title_absent)
  have m: "\<not> sublist ''Overall Risk:'' s \<longrightarrow> overallRisk (parseIssue s) = []"
    "\<not> sublist ''Impact:'' s \<longrightarrow> impact (parseIssue s) = []"
    "\<not> sublist ''Exploitability:'' s \<longrightarrow> exploitability (parseIssue s) = []"
    "\<not> sublist ''Finding ID:'' s \<longrightarrow> findingId (parseIssue s) = []"
    "\<not> sublist ''Component:'' s \<longrightarrow> component (parseIssue s) = []"
    "\<not> sublist ''Category:'' s \<longrightarrow> category (parseIssue s) = []"
    "\<not> sublist ''Status:'' s \<longrightarrow> status (parseIssue s) = []"
    by (simp_all add: parseIssue_fields meta_field_absent)
  have s1: "''impact details'' \<notin> set (section_headings s) \<longrightarrow> impactDetails (parseIssue s) = []"
    by (simp add: parseIssue_def Let_def splitSections_absent)
  have s2: "''description'' \<notin> set (section_headings s) \<longrightarrow>
        description (parseIssue s) = [] \<and> evidence (parseIssue s) = []"
    by (simp add: parseIssue_def Let_def splitSections_absent)
  have s3: "''code example'' \<notin> set (section_headings s) \<longrightarrow>
        codeExample (parseIssue s) = [] \<and> codeLanguage (parseIssue s) = []"
    by (simp add: parseIssue_def Let_def splitSections_absent)
  have s4: "''example issue scenario'' \<notin> set (section_headings s) \<longrightarrow>
        exampleScenario (parseIssue s) = []"
    by (simp add: parseIssue_def Let_def splitSections_absent)
  have s5: "''recommendation'' \<notin> set (section_headings s) \<longrightarrow> recommendation (parseIssue s) = []"
    by (simp add: parseIssue_def Let_def splitSections_absent)
  have e: "\<not> sublist ''Additional Issue:'' s \<longrightarrow> extraRows (parseIssue s) = []"
    by (simp add: parseIssue_def Let_def additional_captures_absent)
  have r: "CHR ''|'' \<notin> set v \<longrightarrow> extra_row v = \<lparr>row_title = trim v, row_severity = ''Medium''\<rparr>"
    by (simp add: extra_row_no_pipe)
  have l: "v \<noteq> [] \<and> \<not> is_space (hd v) \<and> list_all (\<lambda>c. \<not> is_line_terminator c) v \<and> CHR ''|'' \<notin> set v
        \<longrightarrow> extraRows (parseIssue (''Additional Issue: '' @ v))
            = [\<lparr>row_title = trim v, row_severity = ''Medium''\<rparr>]"
  proof
    assume a: "v \<noteq> [] \<and> \<not> is_space (hd v) \<and> list_all (\<lambda>c. \<not> is_line_terminator c) v \<and> CHR ''|'' \<notin> set v"
    then have "additional_captures True (''Additional Issue: '' @ v) = [v]"
      by (intro additional_captures_one_line) blast+
    moreover have "extraRows (parseIssue x) = map extra_row (additional_captures True x)" for x
      by (simp add: parseIssue_def Let_def)
    ultimately show "extraRows (parseIssue (''Additional Issue: '' @ v))
            = [\<lparr>row_title = trim v, row_severity = ''Medium''\<rparr>]"
      using a by (simp add: extra_row_no_pipe)
  qed
  from parseIssue_empty t m s1 s2 s3 s4 s5 e r l show ?thesis by blast
qed

lemma example_absent:
  "\<not> sublist ''Issue title:'' ''Notes only''" "\<not> sublist ''Overall Risk:'' ''Notes only''"
  "\<not> sublist ''Impact:'' ''Notes only''" "\<not> sublist ''Exploitability:'' ''Notes only''"
  "\<not> sublist ''Finding ID:'' ''Notes only''" "\<not> sublist ''Component:'' ''Notes only''"
  "\<not> sublist ''Category:'' ''Notes only''" "\<not> sublist ''Status:'' ''Notes only''"
  "\<not> sublist ''Additional Issue:'' ''Notes only''"
  "section_headings ''Notes only'' = []"
  by code_simp+

lemma example_row:
  "''Other finding'' \<noteq> []" "\<not> is_space (hd ''Other finding'')"
  "list_all (\<lambda>c. \<not> is_line_terminator c) ''Other finding''"
  "CHR ''|'' \<notin> set ''Other finding''" "trim ''Other finding'' = ''Other finding''"
  by code_simp+

theorem parseIssue_defaults_witness:
  "\<not> sublist ''Issue title:'' ''Notes only'' \<and> section_headings ''Notes only'' = []
   \<and> parseIssue ''Notes only'' = \<lparr>title = [], overallRisk = [], impact = [], exploitability = [],
      findingId = [], component = [], category = [], status = [], impactDetails = [],
      description = [], evidence = [], codeExample = [], codeLanguage = [],
      exampleScenario = [], recommendation = [], extraRows = []\<rparr>
   \<and> CHR ''|'' \<notin> set ''Other finding''
   \<and> extraRows (parseIssue ''Additional Issue: Other finding'')
       = [\<lparr>row_title = ''Other finding'', row_severity = ''Medium''\<rparr>]"
proof -
  note c1 = parseIssue_defaults [of "''Notes only''" "''Other finding''", THEN conjunct2]
  have h: "''impact details'' \<notin> set (section_headings ''Notes only'')"
    "''description'' \<notin> set (section_headings ''Notes only'')"
    "''code example'' \<notin> set (section_headings ''Notes only'')"
    "''example issue scenario'' \<notin> set (section_headings ''Notes only'')"
    "''recommendation'' \<notin> set (section_headings ''Notes only'')"
    by (simp_all add: example_absent)
  have f1: "title (parseIssue ''Notes only'') = []"
    by (rule mp [OF c1 [THEN conjunct1] example_absent(1)])
  note c2 = c1 [THEN conjunct2]
  have f2: "overallRisk (parseIssue ''Notes only'') = []"
    by (rule mp [OF c2 [THEN conjunct1] example_absent(2)])
  note c3 = c2 [THEN conjunct2]
  have f3: "impact (parseIssue ''Notes only'') = []"
    by (rule mp [OF c3 [THEN conjunct1] example_absent(3)])
  note c4 = c3 [THEN conjunct2]
  have f4: "exploitability (parseIssue ''Notes only'') = []"
    by (rule mp [OF c4 [THEN conjunct1] example_absent(4)])
  note c5 = c4 [THEN conjunct2]
  have f5: "findingId (parseIssue ''Notes only'') = []"
    by (rule mp [OF c5 [THEN conjunct1] example_absent(5)])
  note c6 = c5 [THEN conjunct2]
  have f6: "component (parseIssue ''Notes only'') = []"
    by (rule mp [OF c6 [THEN conjunct1] example_absent(6)])
  note c7 = c6 [THEN conjunct2]
  have f7: "category (parseIssue ''Notes only'') = []"
    by (rule mp [OF c7 [THEN conjunct1] example_absent(7)])
  note c8 = c7 [THEN conjunct2]
  have f8: "status (parseIssue ''Notes only'') = []"
    by (rule mp [OF c8 [THEN conjunct1] example_absent(8)])
  note c9 = c8 [THEN conjunct2]
  have f9: "impactDetails (parseIssue ''Notes only'') = []"
    by (rule mp [OF c9 [THEN conjunct1] h(1)])
  note c10 = c9 [THEN conjunct2]
  have f10: "description (parseIssue ''Notes only'') = [] \<and> evidence (parseIssue ''Notes only'') = []"
    by (rule mp [OF c10 [THEN conjunct1] h(2)])
  note c11 = c10 [THEN conjunct2]
  have f11: "codeExample (parseIssue ''Notes only'') = [] \<and> codeLanguage (parseIssue ''Notes only'') = []"
    by (rule mp [OF c11 [THEN conjunct1] h(3)])
  note c12 = c11 [THEN conjunct2]
  have f12: "exampleScenario (parseIssue ''Notes only'') = []"
    by (rule mp [OF c12 [THEN conjunct1] h(4)])
  note c13 = c12 [THEN conjunct2]
  have f13: "recommendation (parseIssue ''Notes only'') = []"
    by (rule mp [OF c13 [THEN conjunct1] h(5)])
  note c14 = c13 [THEN conjunct2]
  have f14: "extraRows (parseIssue ''Notes only'') = []"
    by (rule mp [OF c14 [THEN conjunct1] example_absent(9)])
  note c15 = c14 [THEN conjunct2]
  have f15: "extra_row ''Other finding'' = \<lparr>row_title = trim ''Other finding'', row_severity = ''Medium''\<rparr>"
    by (rule mp [OF c15 [THEN conjunct1] example_row(4)])
  have "extraRows (parseIssue (''Additional Issue: '' @ ''Other finding''))
            = [\<lparr>row_title = trim ''Other finding'', row_severity = ''Medium''\<rparr>]"
    by (rule mp [OF c15 [THEN conjunct2]]) (simp only: example_row simp_thms)
  then have row: "extraRows (parseIssue ''Additional Issue: Other finding'')
       = [\<lparr>row_title = ''Other finding'', row_severity = ''Medium''\<rparr>]"
    by (simp add: example_row)
  have rec: "parseIssue ''Notes only'' = \<lparr>title = [], overallRisk = [], impact = [], exploitability = [],
      findingId = [], component = [], category = [], status = [], impactDetails = [],
      description = [], evidence = [], codeExample = [], codeLanguage = [],
      exampleScenario = [], recommendation = [], extraRows = []\<rparr>"
    by (rule IssueSnapshot.equality)
      (simp_all add: f1 f2 f3 f4 f5 f6 f7 f8 f9 f10 f11 f12 f13 f14)
  show ?thesis
    by (intro conjI) (rule example_absent(1) example_absent(10) rec example_row(4) row)+
qed


text \<open>
  Absence read line by line. A key that no line of the document begins with gives the
  empty field, wherever else in a line it occurs.
\<close>

lemma search_lines_mid_line:
  assumes "b \<Longrightarrow> \<not> prefix key s"
    and "\<And>pre post. s = pre @ key @ post \<Longrightarrow> pre \<noteq> [] \<Longrightarrow> \<not> is_line_terminator (last pre)"
  shows "search_lines (meta_pattern key) b s = None"
  using assms
proof (induction s arbitrary: b)
  case Nil
  then have "b \<Longrightarrow> key \<noteq> []" by auto
  then have "b \<Longrightarrow> meta_pattern key [] = None"
    by (simp add: meta_pattern_def strip_prefix_def)
  then show ?case by simp
next
  case (Cons c cs)
  have here: "(if b then meta_pattern key (c # cs) else None) = None"
  proof (cases b)
    case True
    with Cons.prems(1) have "\<not> prefix key (c # cs)" by simp
    then have "strip_prefix key (c # cs) = None"
      by (auto simp: strip_prefix_None prefix_def)
    with True show ?thesis by (simp add: meta_pattern_def)
  next
    case False
    then show ?thesis by simp
  qed
  have "search_lines (meta_pattern key) (is_line_terminator c) cs = None"
  proof (rule Cons.IH)
    assume lt: "is_line_terminator c"
    show "\<not> prefix key cs"
    proof
      assume "prefix key cs"
      then obtain post where "cs = key @ post" by (auto simp: prefix_def)
      then have "c # cs = [c] @ key @ post" by simp
      from Cons.prems(2) [OF this] lt show False by simp
    qed
  next
    fix pre post
    assume "cs = pre @ key @ post" "pre \<noteq> []"
    then have "c # cs = (c # pre) @ key @ post" "last (c # pre) = last pre" by simp_all
    with Cons.prems(2) [of "c # pre" post] show "\<not> is_line_terminator (last pre)" by simp
  qed
  with here show ?case by simp
qed

lemma meta_field_mid_line:
  assumes "\<not> prefix key s"
    and "\<And>pre post. s = pre @ key @ post \<Longrightarrow> pre \<noteq> [] \<Longrightarrow> \<not> is_line_terminator (last pre)"
  shows "meta_field key s = []"
  using search_lines_mid_line [of True key s] assms by (simp add: meta_field_def)

text \<open>
  A row is read from an \<open>Additional Issue\<close> line anywhere in the document: behind any
  text that ends a line and does not hold the marker, the line gives the first row, and the
  search goes on behind it.
\<close>

lemma key_not_across:
  assumes "pre \<noteq> []" "is_line_terminator (last pre)" "\<not> sublist key pre"
    "list_all (\<lambda>c. \<not> is_line_terminator c) key"
  shows "strip_prefix key (pre @ t) = None"
proof -
  have "\<not> prefix key (pre @ t)"
  proof
    assume "prefix key (pre @ t)"
    moreover have "prefix pre (pre @ t)" by simp
    ultimately have "prefix key pre \<or> prefix pre key" by (rule prefix_same_cases)
    then show False
    proof
      assume "prefix key pre"
      with assms(3) show False by (auto dest: prefix_imp_sublist)
    next
      assume "prefix pre key"
      then have "set pre \<subseteq> set key" by (rule set_mono_prefix)
      with assms(1) have "last pre \<in> set key" by auto
      with assms(2,4) show False by (auto simp: list_all_iff)
    qed
  qed
  then show ?thesis by (auto simp: strip_prefix_None prefix_def)
qed

lemma additional_captures_preamble:
  assumes "\<not> sublist ''Additional Issue:'' pre" "pre = [] \<longrightarrow> b"
    "pre \<noteq> [] \<longrightarrow> is_line_terminator (last pre)"
  shows "additional_captures b (pre @ t) = additional_captures True t"
  using assms
proof (induction pre arbitrary: b)
  case Nil
  then show ?case by simp
next
  case (Cons c cs)
  have k: "list_all (\<lambda>c. \<not> is_line_terminator c) ''Additional Issue:''" by code_simp
  from Cons.prems have "strip_prefix ''Additional Issue:'' ((c # cs) @ t) = None"
    by (intro key_not_across k) simp_all
  then have here: "(if b then meta_pattern ''Additional Issue:'' (c # cs @ t) else None) = None"
    by (simp add: meta_pattern_def)
  from Cons.prems(1) have n: "\<not> sublist ''Additional Issue:'' cs"
    by (auto simp: sublist_Cons_right)
  from Cons.prems(3) have "cs = [] \<longrightarrow> is_line_terminator c"
    "cs \<noteq> [] \<longrightarrow> is_line_terminator (last cs)" by auto
  from Cons.IH [OF n this] here show ?case by simp
qed

lemma additional_captures_line:
  assumes "v \<noteq> []" "\<not> is_space (hd v)" "list_all (\<lambda>c. \<not> is_line_terminator c) v"
    and "rest = [] \<or> is_line_terminator (hd rest)"
  shows "additional_captures True (''Additional Issue: '' @ v @ rest)
       = v # additional_captures False rest"
proof -
  have sp: "is_space (CHR '' '')" by (simp add: is_space_def)
  from assms(1,2) have d: "dropWhile is_space (CHR '' '' # v @ rest) = v @ rest"
    using sp by (cases v) auto
  from assms(3,4) have t: "takeWhile (\<lambda>c. \<not> is_line_terminator c) (v @ rest) = v"
    and r: "dropWhile (\<lambda>c. \<not> is_line_terminator c) (v @ rest) = rest"
    by (cases rest; simp add: list_all_iff)+
  have "value_after (CHR '' '' # v @ rest) = Some (v, rest)"
    unfolding value_after_def Let_def d using assms(1) by (simp add: t r)
  moreover have "strip_prefix ''Additional Issue:'' (''Additional Issue: '' @ v @ rest)
      = Some (CHR '' '' # v @ rest)"
    by (simp add: strip_prefix_def)
  ultimately have "meta_pattern ''Additional Issue:'' (''Additional Issue: '' @ v @ rest) = Some (v, rest)"
    by (simp add: meta_pattern_def)
  then show ?thesis by simp
qed

lemma additional_row_anywhere:
  assumes "\<not> sublist ''Additional Issue:'' pre" "pre = [] \<or> is_line_terminator (last pre)"
    and "v \<noteq> []" "\<not> is_space (hd v)" "list_all (\<lambda>c. \<not> is_line_terminator c) v"
    and "rest = [] \<or> is_line_terminator (hd rest)"
  shows "extraRows (parseIssue (pre @ ''Additional Issue: '' @ v @ rest))
       = extra_row v # map extra_row (additional_captures False rest)"
proof -
  from assms(1,2)
  have "additional_captures True (pre @ ''Additional Issue: '' @ v @ rest)
      = additional_captures True (''Additional Issue: '' @ v @ rest)"
    by (intro additional_captures_preamble) auto
  with additional_captures_line [OF assms(3-6)] show ?thesis
    by (simp add: parseIssue_def Let_def)
qed

lemma example_mid_line:
  "component (parseIssue ''The Component: auth'') = []"
  "extraRows (parseIssue (''# Issue title: T'' @ [CHR 0x0A] @ ''Additional Issue: Other finding''
      @ [CHR 0x0A] @ ''Impact: Low''))
     = [\<lparr>row_title = ''Other finding'', row_severity = ''Medium''\<rparr>]"
  by code_simp+

text \<open>
  Absence inside a section. A description in which \<open>Evidence:\<close> does not occur gives no
  evidence, and a code section without a fence gives no language and its trimmed text as
  the code.
\<close>

lemma search_all_none:
  assumes "\<And>x v. p x = Some v \<Longrightarrow> sublist key x" "\<not> sublist key s"
  shows "search_all p s = None"
  using assms(2)
proof (induction s)
  case Nil
  with assms(1) [of "[]"] show ?case by (cases "p []") auto
next
  case (Cons c cs)
  then have "\<not> sublist key cs" and n: "\<not> sublist key (c # cs)"
    by (auto simp: sublist_Cons_right)
  with Cons.IH have "search_all p cs = None" by blast
  moreover from n assms(1) [of "c # cs"] have "p (c # cs) = None"
    by (cases "p (c # cs)") auto
  ultimately show ?case by simp
qed

lemma code_block_pattern_sublist:
  assumes "code_block_pattern x = Some v"
  shows "sublist ''```'' x"
proof -
  from assms obtain r where "strip_prefix ''```'' x = Some r"
    by (auto simp: code_block_pattern_def split: option.splits)
  then have "x = ''```'' @ r" by (simp add: strip_prefix_Some)
  then show ?thesis by (metis sublist_appendI append_Nil)
qed

lemma evidence_absent:
  assumes "splitSections s ''description'' = Some c" "\<not> sublist ''Evidence:'' c"
  shows "evidence (parseIssue s) = []"
  using assms by (simp add: parseIssue_def Let_def search_all_absent)

lemma code_fence_absent:
  assumes "splitSections s ''code example'' = Some c" "\<not> sublist ''```'' c"
  shows "codeLanguage (parseIssue s) = []"
    and "codeExample (parseIssue s) = (if c \<noteq> [] then trim c else [])"
proof -
  have "search_all code_block_pattern c = None"
  proof (rule search_all_none [of code_block_pattern "''```''"])
    show "sublist ''```'' x" if "code_block_pattern x = Some v" for x v
      using that by (rule code_block_pattern_sublist)
    show "\<not> sublist ''```'' c" by (rule assms(2))
  qed
  with assms(1) show "codeLanguage (parseIssue s) = []"
    and "codeExample (parseIssue s) = (if c \<noteq> [] then trim c else [])"
    by (simp_all add: parseIssue_def Let_def)
qed

lemma example_sections:
  "evidence (parseIssue (''## Description'' @ [CHR 0x0A] @ ''MD5 is used.'')) = []"
  "description (parseIssue (''## Description'' @ [CHR 0x0A] @ ''MD5 is used.'')) = ''MD5 is used.''"
  "codeLanguage (parseIssue (''### Code example'' @ [CHR 0x0A] @ ''h = md5(p)'')) = []"
  "codeExample (parseIssue (''### Code example'' @ [CHR 0x0A] @ ''h = md5(p)'')) = ''h = md5(p)''"
  by code_simp+

text \<open>
  A key whose value is blank. The white space that the pattern allows between the key and
  the value includes the line terminators, so when only white space follows the key on its
  line the value is taken from the next line that has text: for every key, a document
  whose first line is the key and whose second line is \<open>v\<close> gives the field \<open>v\<close>.
\<close>

lemma value_after_next_line:
  assumes "list_all is_space ws" "v \<noteq> []" "\<not> is_space (hd v)"
    "list_all (\<lambda>c. \<not> is_line_terminator c) v"
  shows "value_after (ws @ CHR 0x0A # v) = Some (v, [])"
proof -
  have lf: "is_space (CHR 0x0A)" by (simp add: is_space_def)
  from assms(2,3) have "dropWhile is_space v = v" by (cases v) auto
  with assms(1) lf have d: "dropWhile is_space (ws @ CHR 0x0A # v) = v"
    by (simp add: list_all_iff)
  from assms(4) have t: "takeWhile (\<lambda>c. \<not> is_line_terminator c) v = v"
    and r: "dropWhile (\<lambda>c. \<not> is_line_terminator c) v = []"
    by (simp_all add: list_all_iff)
  show ?thesis
    unfolding value_after_def Let_def d using assms(2) by (simp add: t r)
qed

lemma meta_field_blank_value:
  assumes "list_all is_space ws" "v \<noteq> []" "\<not> is_space (hd v)"
    "list_all (\<lambda>c. \<not> is_line_terminator c) v"
  shows "meta_field key (key @ ws @ CHR 0x0A # v) = trim v"
proof -
  have m: "meta_pattern key (key @ ws @ CHR 0x0A # v) = Some (v, [])"
    by (simp add: meta_pattern_def strip_prefix_append value_after_next_line [OF assms])
  obtain c cs where s: "key @ ws @ CHR 0x0A # v = c # cs"
    by (cases "key @ ws @ CHR 0x0A # v") auto
  from m have "search_lines (meta_pattern key) True (key @ ws @ CHR 0x0A # v) = Some (v, [])"
    unfolding s by simp
  then show ?thesis by (simp add: meta_field_def)
qed

text \<open>
  C7. The claim fails on a metadata line with a blank value: the field is not empty, it
  is the text of the line below. \<open>issueToMarkdown\<close> writes the line \<open>Component: \<close> with
  nothing behind it for an issue without component, as every new page is, and the line
  \<open>Category:\<close> follows it; \<open>parseIssue\<close> reads the component \<open>Category: Web\<close> from that
  document.
\<close>

theorem blank_value_captures_next_line:
  "component (newIssue 1 ''Web'') = []
   \<and> sublist (''Component: '' @ [CHR 0x0A] @ ''Category: Web'') (issueToMarkdown (newIssue 1 ''Web''))
   \<and> component (parseIssue (issueToMarkdown (newIssue 1 ''Web''))) = ''Category: Web''"
  by code_simp


section \<open>Inline markdown: well-delimited text\<close>

lemma replace_char_absent: "c \<notin> set s \<Longrightarrow> replace_char c r s = s"
  by (induction s) (auto simp: replace_char_def)

lemma escape_html_plain:
  "CHR ''&'' \<notin> set s \<Longrightarrow> CHR ''<'' \<notin> set s \<Longrightarrow> CHR ''>'' \<notin> set s \<Longrightarrow> escape_html s = s"
  by (simp add: escape_html_def replace_char_absent)

lemma span_at_other: "d \<noteq> [] \<Longrightarrow> c \<noteq> hd d \<Longrightarrow> span_at d x (c # cs) = None"
  by (cases d) (auto simp: span_at_def strip_prefix_def)

lemma replace_spans_pass:
  "d \<noteq> [] \<Longrightarrow> hd d \<notin> set s \<Longrightarrow>
   replace_spans d x otag ctag (s @ r) = s @ replace_spans d x otag ctag r"
  by (induction s) (auto simp: span_at_other)

lemma replace_spans_absent:
  "d \<noteq> [] \<Longrightarrow> hd d \<notin> set s \<Longrightarrow> replace_spans d x otag ctag s = s"
  using replace_spans_pass [of d s x otag ctag "[]"] by simp

lemma link_at_other: "c \<noteq> CHR ''['' \<Longrightarrow> link_at (c # cs) = None"
  by (simp add: link_at_def)

lemma replace_links_absent: "CHR ''['' \<notin> set s \<Longrightarrow> replace_links f s = s"
  by (induction s) (auto simp: link_at_other)

lemma takeWhile_until: "x \<notin> set b \<Longrightarrow> takeWhile (\<lambda>c. c \<noteq> x) (b @ x # r) = b"
  by (induction b) auto

lemma dropWhile_until: "x \<notin> set b \<Longrightarrow> dropWhile (\<lambda>c. c \<noteq> x) (b @ x # r) = x # r"
  by (induction b) auto

lemma span_at_single:
  assumes "b \<noteq> []" "x \<notin> set b"
  shows "span_at [x] x (x # b @ x # rest) = Some (b, rest)"
proof -
  have "strip_prefix [x] (x # b @ x # rest) = Some (b @ x # rest)"
    by (simp add: strip_prefix_def)
  moreover have "strip_prefix [x] (x # rest) = Some rest"
    by (simp add: strip_prefix_def)
  ultimately show ?thesis
    using assms by (simp add: span_at_def Let_def takeWhile_until dropWhile_until)
qed

lemma span_at_double:
  assumes "b \<noteq> []" "x \<notin> set b"
  shows "span_at [x, x] x (x # x # b @ x # x # rest) = Some (b, rest)"
proof -
  have "strip_prefix [x, x] (x # x # b @ x # x # rest) = Some (b @ x # x # rest)"
    by (simp add: strip_prefix_def)
  moreover have "strip_prefix [x, x] (x # x # rest) = Some rest"
    by (simp add: strip_prefix_def)
  ultimately show ?thesis
    using assms by (simp add: span_at_def Let_def takeWhile_until dropWhile_until)
qed

lemma span_at_double_single:
  assumes "b \<noteq> []" "x \<notin> set b"
  shows "span_at [x, x] x (x # b @ r) = None"
proof -
  from assms obtain c cs where "b = c # cs" "c \<noteq> x"
    by (cases b) auto
  then show ?thesis by (simp add: span_at_def strip_prefix_def)
qed

lemma link_at_match:
  assumes "t \<noteq> []" "CHR '']'' \<notin> set t" "u \<noteq> []" "CHR '')'' \<notin> set u"
  shows "link_at (CHR ''['' # t @ CHR '']'' # CHR ''('' # u @ CHR '')'' # rest) = Some ((t, u), rest)"
proof -
  have "strip_prefix '']('' (CHR '']'' # CHR ''('' # u @ CHR '')'' # rest) = Some (u @ CHR '')'' # rest)"
    by (simp add: strip_prefix_def)
  then show ?thesis
    using assms by (simp add: link_at_def Let_def takeWhile_until dropWhile_until)
qed

lemma replace_char_append: "replace_char c r (a @ b) = replace_char c r a @ replace_char c r b"
  by (simp add: replace_char_def)

lemma escape_html_append: "escape_html (a @ b) = escape_html a @ escape_html b"
  by (simp add: escape_html_def replace_char_append)

lemma set_replace_char: "set (replace_char c r s) \<subseteq> set s \<union> set r"
  by (induction s) (auto simp: replace_char_def)

lemma replace_char_Nil_iff: "r \<noteq> [] \<Longrightarrow> replace_char c r s = [] \<longleftrightarrow> s = []"
  by (cases s) (auto simp: replace_char_def)

lemma escape_html_Nil_iff: "escape_html s = [] \<longleftrightarrow> s = []"
  by (simp add: escape_html_def replace_char_Nil_iff)

lemma replace_char_keeps:
  "x \<notin> set s \<Longrightarrow> x \<notin> set r \<Longrightarrow> x \<notin> set (replace_char c r s)"
  by (induction s) (auto simp: replace_char_def)

lemma escape_html_keeps:
  assumes "x \<notin> set s" "x \<notin> set ''&amp;''" "x \<notin> set ''&lt;''" "x \<notin> set ''&gt;''"
  shows "x \<notin> set (escape_html s)"
  unfolding escape_html_def by (intro replace_char_keeps assms)

lemma span_bodyD:
  assumes "span_body b"
  shows "b \<noteq> []" "CHR ''`'' \<notin> set b" "CHR ''*'' \<notin> set b" "CHR ''['' \<notin> set b"
  using assms by (auto simp: span_body_def list_all_iff)

lemma span_bodyI:
  "b \<noteq> [] \<Longrightarrow> CHR ''`'' \<notin> set b \<Longrightarrow> CHR ''*'' \<notin> set b \<Longrightarrow> CHR ''['' \<notin> set b \<Longrightarrow> span_body b"
  by (auto simp: span_body_def list_all_iff)

lemma span_body_escape: "span_body b \<Longrightarrow> span_body (escape_html b)"
  by (rule span_bodyI) (simp_all add: escape_html_Nil_iff escape_html_keeps span_bodyD)

lemma item_ok_escape: "item_ok i \<Longrightarrow> item_ok (escape_item i)"
  by (cases i) (simp_all add: span_body_escape escape_html_keeps)

lemma is_italic_escape: "is_italic (escape_item i) = is_italic i"
  by (cases i) simp_all

lemma well_delimited_escape: "well_delimited items \<Longrightarrow> well_delimited (map escape_item items)"
  by (induction items rule: well_delimited.induct) (simp_all add: item_ok_escape is_italic_escape)

lemma well_delimited_items: "well_delimited items \<Longrightarrow> list_all item_ok items"
  by (induction items rule: well_delimited.induct) simp_all

lemma stage_markup: "stage 0 i = markup_of i"
  by (cases i) simp_all

lemma stage_html: "stage 4 (escape_item i) = item_html i"
  by (cases i) simp_all

lemma escape_delims:
  "escape_html ''['' = ''[''" "escape_html '']('' = '']('' " "escape_html '')'' = '')''"
  "escape_html ''`'' = ''`''" "escape_html ''**'' = ''**''" "escape_html ''*'' = ''*''"
  by (simp_all add: escape_html_def replace_char_def)

lemma escape_markup_of: "escape_html (markup_of i) = markup_of (escape_item i)"
  by (cases i) (simp_all only: markup_of.simps escape_item.simps escape_html_append escape_delims)

lemma escape_markup: "escape_html (markup items) = markup (map escape_item items)"
proof (induction items)
  case Nil
  show ?case by (simp add: markup_def escape_html_def replace_char_def)
next
  case (Cons i items)
  have "escape_html (markup (i # items)) = escape_html (markup_of i) @ escape_html (markup items)"
    by (simp add: markup_def escape_html_append)
  also have "\<dots> = markup_of (escape_item i) @ markup (map escape_item items)"
    by (simp only: Cons.IH escape_markup_of)
  finally show ?case by (simp add: markup_def)
qed

lemma replace_links_pass:
  "CHR ''['' \<notin> set s \<Longrightarrow> replace_links f (s @ r) = s @ replace_links f r"
  by (induction s) (auto simp: link_at_other)

lemma inlineMarkdownToHtml_passes:
  "inlineMarkdownToHtml s =
     replace_links anchor
       (replace_spans ''*'' (CHR ''*'') ''<em>'' ''</em>''
         (replace_spans ''**'' (CHR ''*'') ''<strong>'' ''</strong>''
           (replace_spans ''`'' (CHR ''`'') ''<code>'' ''</code>'' (escape_html s))))"
  by (simp add: inlineMarkdownToHtml_def Let_def escape_html_def replace_char_def)

lemma code_pass_item:
  assumes "item_ok i"
  shows "replace_spans ''`'' (CHR ''`'') ''<code>'' ''</code>'' (stage 0 i @ r)
       = stage 1 i @ replace_spans ''`'' (CHR ''`'') ''<code>'' ''</code>'' r"
proof (cases "\<exists>b. i = CodeSpan b")
  case True
  then obtain b where i: "i = CodeSpan b" by blast
  with assms have b: "b \<noteq> []" "CHR ''`'' \<notin> set b" by (simp_all add: span_bodyD)
  from span_at_single [OF b, of r] show ?thesis using i by simp
next
  case False
  with assms have "CHR ''`'' \<notin> set (stage 0 i)" and "stage 1 i = stage 0 i"
    by (cases i; simp add: span_bodyD)+
  then show ?thesis by (simp add: replace_spans_pass)
qed

lemma bold_at_star:
  assumes "item_ok j" "\<not> is_italic j"
  shows "span_at ''**'' (CHR ''*'') (CHR ''*'' # stage 1 j @ r) = None"
proof (cases j)
  case (Txt p)
  with assms have "p \<noteq> []" "CHR ''*'' \<notin> set p" by (simp_all add: span_bodyD)
  then obtain c cs where "p = c # cs" "c \<noteq> CHR ''*''"
    by (cases p) auto
  with Txt show ?thesis by (simp add: span_at_def strip_prefix_def)
next
  case (Lnk l u)
  then show ?thesis by (simp add: span_at_def strip_prefix_def)
next
  case (CodeSpan b)
  then show ?thesis by (simp add: span_at_def strip_prefix_def)
next
  case (BoldSpan b)
  then show ?thesis by (simp add: span_at_def strip_prefix_def)
next
  case (ItalicSpan b)
  with assms show ?thesis by simp
qed

lemma bold_pass_item:
  assumes "item_ok i"
    and "is_italic i \<Longrightarrow> span_at ''**'' (CHR ''*'') (CHR ''*'' # r) = None"
  shows "replace_spans ''**'' (CHR ''*'') ''<strong>'' ''</strong>'' (stage 1 i @ r)
       = stage 2 i @ replace_spans ''**'' (CHR ''*'') ''<strong>'' ''</strong>'' r"
proof (cases i)
  case (Txt p)
  with assms have "CHR ''*'' \<notin> set (stage 1 i)" by (simp add: span_bodyD)
  then show ?thesis using Txt by (simp add: replace_spans_pass)
next
  case (Lnk l u)
  with assms have "CHR ''*'' \<notin> set (stage 1 i)" by (simp add: span_bodyD)
  then have "replace_spans ''**'' (CHR ''*'') ''<strong>'' ''</strong>'' (stage 1 i @ r)
      = stage 1 i @ replace_spans ''**'' (CHR ''*'') ''<strong>'' ''</strong>'' r"
    by (simp add: replace_spans_pass)
  then show ?thesis using Lnk by simp
next
  case (CodeSpan b)
  with assms have "CHR ''*'' \<notin> set (stage 1 i)" by (simp add: span_bodyD)
  then have "replace_spans ''**'' (CHR ''*'') ''<strong>'' ''</strong>'' (stage 1 i @ r)
      = stage 1 i @ replace_spans ''**'' (CHR ''*'') ''<strong>'' ''</strong>'' r"
    by (simp add: replace_spans_pass)
  then show ?thesis using CodeSpan by simp
next
  case (BoldSpan b)
  with assms have b: "b \<noteq> []" "CHR ''*'' \<notin> set b" by (simp_all add: span_bodyD)
  from span_at_double [OF b, of r] show ?thesis using BoldSpan by simp
next
  case (ItalicSpan b)
  with assms have b: "b \<noteq> []" "CHR ''*'' \<notin> set b" by (simp_all add: span_bodyD)
  from ItalicSpan assms(2) have s3: "span_at ''**'' (CHR ''*'') (CHR ''*'' # r) = None" by simp
  have s2: "replace_spans ''**'' (CHR ''*'') ''<strong>'' ''</strong>'' (b @ CHR ''*'' # r)
      = b @ replace_spans ''**'' (CHR ''*'') ''<strong>'' ''</strong>'' (CHR ''*'' # r)"
    using b by (simp add: replace_spans_pass)
  from span_at_double_single [OF b, of "CHR ''*'' # r"] s2 s3
  show ?thesis using ItalicSpan by simp
qed

lemma bold_pass:
  "well_delimited items \<Longrightarrow>
   replace_spans ''**'' (CHR ''*'') ''<strong>'' ''</strong>'' (concat (map (stage 1) items))
     = concat (map (stage 2) items)"
proof (induction items rule: well_delimited.induct)
  case 1
  show ?case by simp
next
  case (2 i)
  have "span_at ''**'' (CHR ''*'') ''*'' = None"
    by (simp add: span_at_def strip_prefix_def)
  with 2 bold_pass_item [of i "[]"] show ?case by simp
next
  case (3 i j items)
  from "3.prems" have oki: "item_ok i" and it: "is_italic i \<Longrightarrow> \<not> is_italic j"
    and wd: "well_delimited (j # items)" by simp_all
  from well_delimited_items [OF wd] have okj: "item_ok j" by simp
  note ok = oki okj
  note ih = "3.IH" [OF wd]
  have "span_at ''**'' (CHR ''*'') (CHR ''*'' # concat (map (stage 1) (j # items))) = None"
    if "is_italic i"
    using bold_at_star [OF ok(2) it [OF that], of "concat (map (stage 1) items)"] by simp
  from bold_pass_item [OF ok(1) this] ih show ?case by simp
qed

lemma italic_pass_item:
  assumes "item_ok i"
  shows "replace_spans ''*'' (CHR ''*'') ''<em>'' ''</em>'' (stage 2 i @ r)
       = stage 3 i @ replace_spans ''*'' (CHR ''*'') ''<em>'' ''</em>'' r"
proof (cases "\<exists>b. i = ItalicSpan b")
  case True
  then obtain b where i: "i = ItalicSpan b" by blast
  with assms have b: "b \<noteq> []" "CHR ''*'' \<notin> set b" by (simp_all add: span_bodyD)
  from span_at_single [OF b, of r] show ?thesis using i by simp
next
  case False
  with assms have "CHR ''*'' \<notin> set (stage 2 i)" and "stage 3 i = stage 2 i"
    by (cases i; simp add: span_bodyD)+
  then show ?thesis by (simp add: replace_spans_pass)
qed

lemma link_pass_item:
  assumes "item_ok i"
  shows "replace_links anchor (stage 3 i @ r) = stage 4 i @ replace_links anchor r"
proof (cases "\<exists>l u. i = Lnk l u")
  case True
  then obtain l u where i: "i = Lnk l u" by blast
  with assms have l: "l \<noteq> []" "CHR '']'' \<notin> set l" and u: "u \<noteq> []" "CHR '')'' \<notin> set u"
    by (simp_all add: span_bodyD)
  from link_at_match [OF l u, of r] show ?thesis using i by simp
next
  case False
  with assms have "CHR ''['' \<notin> set (stage 3 i)" and "stage 4 i = stage 3 i"
    by (cases i; simp add: span_bodyD)+
  then show ?thesis by (simp add: replace_links_pass)
qed

lemma code_pass:
  "list_all item_ok items \<Longrightarrow>
   replace_spans ''`'' (CHR ''`'') ''<code>'' ''</code>'' (concat (map (stage 0) items))
     = concat (map (stage 1) items)"
  by (induction items) (simp_all add: code_pass_item)

lemma italic_pass:
  "list_all item_ok items \<Longrightarrow>
   replace_spans ''*'' (CHR ''*'') ''<em>'' ''</em>'' (concat (map (stage 2) items))
     = concat (map (stage 3) items)"
  by (induction items) (simp_all add: italic_pass_item)

lemma link_pass:
  "list_all item_ok items \<Longrightarrow>
   replace_links anchor (concat (map (stage 3) items)) = concat (map (stage 4) items)"
  by (induction items) (simp_all add: link_pass_item)

lemma html_items:
  assumes "well_delimited items"
  shows "inlineMarkdownToHtml (markup items) = concat (map item_html items)"
proof -
  let ?e = "map escape_item items"
  from assms have wd: "well_delimited ?e" by (rule well_delimited_escape)
  then have ok: "list_all item_ok ?e" by (rule well_delimited_items)
  have m: "markup ?e = concat (map (stage 0) ?e)"
    by (simp add: markup_def stage_markup comp_def)
  have h: "concat (map (stage 4) ?e) = concat (map item_html items)"
    by (simp add: comp_def stage_html)
  show ?thesis
    by (simp only: inlineMarkdownToHtml_passes escape_markup m code_pass [OF ok]
        bold_pass [OF wd] italic_pass [OF ok] link_pass [OF ok] h)
qed

lemma inline_runs_plain:
  assumes "t \<noteq> []" "\<forall>c \<in> set t. plain_char c"
  shows "inline_runs (t @ s) =
     (if leading_text (t @ s) \<noteq> []
      then [\<lparr>run_text = leading_text (t @ s), run_style = Plain\<rparr>] else [])
     @ inline_runs (dropWhile plain_char s)"
proof -
  from assms obtain c cs where t: "t = c # cs" by (cases t) auto
  with assms(2) have c: "c \<noteq> CHR ''`''" "c \<noteq> CHR ''*''" "plain_char c"
    and cs: "\<forall>c \<in> set cs. plain_char c"
    by (auto simp: plain_char_def)
  from cs have tw: "takeWhile plain_char (cs @ s) = cs @ takeWhile plain_char s"
    and dw: "dropWhile plain_char (cs @ s) = dropWhile plain_char s"
    by simp_all
  from c have n: "span_at ''`'' (CHR ''`'') (c # cs @ s) = None"
    "span_at ''**'' (CHR ''*'') (c # cs @ s) = None" "span_at ''*'' (CHR ''*'') (c # cs @ s) = None"
    by (simp_all add: span_at_other)
  show ?thesis
    unfolding t append_Cons inline_runs.simps n using c(3)
    by (simp add: tw dw Let_def leading_text_def)
qed

lemma runs_agree_plain:
  assumes t: "t \<noteq> []" "\<forall>c \<in> set t. plain_char c"
    and v: "v \<noteq> []"
      "\<And>r. replace_links (\<lambda>label url. label) (t @ r) = v @ replace_links (\<lambda>label url. label) r"
    and a: "runs_agree s runs"
  shows "runs_agree (t @ s) (add_plain v runs)"
proof -
  from t(2) have tw: "takeWhile plain_char (t @ s) = t @ takeWhile plain_char s"
    and dw: "dropWhile plain_char (t @ s) = dropWhile plain_char s"
    by simp_all
  have lt: "leading_text (t @ s) = v @ leading_text s"
    by (simp add: leading_text_def tw v(2))
  with v(1) inline_runs_plain [OF t, of s]
  have run: "inline_runs (t @ s)
      = \<lparr>run_text = v @ leading_text s, run_style = Plain\<rparr> # inline_runs (dropWhile plain_char s)"
    by simp
  have add: "add_plain v runs
      = \<lparr>run_text = v @ leading_text s, run_style = Plain\<rparr> # inline_runs (dropWhile plain_char s)"
  proof (cases "takeWhile plain_char s = []")
    case True
    then have l: "leading_text s = []" by (simp add: leading_text_def)
    from True have d: "dropWhile plain_char s = s"
      by (metis append_Nil takeWhile_dropWhile_id)
    from a True have r: "inline_runs s = runs" "runs = [] \<or> run_style (hd runs) \<noteq> Plain"
      by (simp_all add: runs_agree_def)
    then show ?thesis by (cases runs) (auto simp: l d)
  next
    case False
    with a have "runs = \<lparr>run_text = leading_text s, run_style = Plain\<rparr>
                      # inline_runs (dropWhile plain_char s)"
      by (simp add: runs_agree_def)
    then show ?thesis by simp
  qed
  from t(1) have "takeWhile plain_char (t @ s) \<noteq> []" by (simp add: tw)
  with run add show ?thesis by (simp add: runs_agree_def lt dw)
qed

lemma runs_agree_span:
  assumes "inline_runs (c # s) = r # runs" "\<not> plain_char c" "run_style r \<noteq> Plain"
  shows "runs_agree (c # s) (r # runs)"
  using assms by (simp add: runs_agree_def)

lemma runs_agree_item:
  assumes ok: "item_ok i" and a: "runs_agree (markup items) (item_runs items)"
  shows "runs_agree (markup (i # items)) (item_runs (i # items))"
proof (cases i)
  case (Txt p)
  with ok have p: "p \<noteq> []" "\<forall>c \<in> set p. plain_char c" "CHR ''['' \<notin> set p"
    by (auto simp: span_bodyD plain_char_def)
  from runs_agree_plain [OF p(1,2) p(1) _ a] p(3) show ?thesis
    using Txt by (simp add: markup_def replace_links_pass)
next
  case (Lnk l u)
  with ok have l: "l \<noteq> []" "CHR '']'' \<notin> set l" and u: "u \<noteq> []" "CHR '')'' \<notin> set u"
    and pl: "\<forall>c \<in> set (markup_of i). plain_char c"
    by (auto simp: span_bodyD plain_char_def)
  have "replace_links (\<lambda>label url. label) (markup_of i @ r)
      = l @ replace_links (\<lambda>label url. label) r" for r
    using link_at_match [OF l u, of r] Lnk by simp
  from runs_agree_plain [OF _ pl l(1) this a] show ?thesis
    using Lnk by (simp add: markup_def)
next
  case (CodeSpan b)
  with ok have b: "b \<noteq> []" "CHR ''`'' \<notin> set b" by (simp_all add: span_bodyD)
  from a have r: "inline_runs (markup items) = item_runs items" by (simp add: runs_agree_def)
  have "inline_runs (CHR ''`'' # b @ CHR ''`'' # markup items)
      = \<lparr>run_text = b, run_style = Code\<rparr> # item_runs items"
    using span_at_single [OF b, of "markup items"] r by simp
  then have "runs_agree (CHR ''`'' # b @ CHR ''`'' # markup items)
      (\<lparr>run_text = b, run_style = Code\<rparr> # item_runs items)"
    by (rule runs_agree_span) (simp_all add: plain_char_def)
  then show ?thesis using CodeSpan by (simp add: markup_def)
next
  case (BoldSpan b)
  with ok have b: "b \<noteq> []" "CHR ''*'' \<notin> set b" by (simp_all add: span_bodyD)
  from a have r: "inline_runs (markup items) = item_runs items" by (simp add: runs_agree_def)
  have n: "span_at ''`'' (CHR ''`'') (CHR ''*'' # CHR ''*'' # b @ CHR ''*'' # CHR ''*'' # markup items) = None"
    by (simp add: span_at_other)
  have "inline_runs (CHR ''*'' # CHR ''*'' # b @ CHR ''*'' # CHR ''*'' # markup items)
      = \<lparr>run_text = b, run_style = Bold\<rparr> # item_runs items"
    using span_at_double [OF b, of "markup items"] r n by simp
  then have "runs_agree (CHR ''*'' # CHR ''*'' # b @ CHR ''*'' # CHR ''*'' # markup items)
      (\<lparr>run_text = b, run_style = Bold\<rparr> # item_runs items)"
    by (rule runs_agree_span) (simp_all add: plain_char_def)
  then show ?thesis using BoldSpan by (simp add: markup_def)
next
  case (ItalicSpan b)
  with ok have b: "b \<noteq> []" "CHR ''*'' \<notin> set b" by (simp_all add: span_bodyD)
  from a have r: "inline_runs (markup items) = item_runs items" by (simp add: runs_agree_def)
  have n: "span_at ''`'' (CHR ''`'') (CHR ''*'' # b @ CHR ''*'' # markup items) = None"
    by (simp add: span_at_other)
  have "inline_runs (CHR ''*'' # b @ CHR ''*'' # markup items)
      = \<lparr>run_text = b, run_style = Italic\<rparr> # item_runs items"
    using span_at_single [OF b, of "markup items"]
      span_at_double_single [OF b, of "CHR ''*'' # markup items"] r n by simp
  then have "runs_agree (CHR ''*'' # b @ CHR ''*'' # markup items)
      (\<lparr>run_text = b, run_style = Italic\<rparr> # item_runs items)"
    by (rule runs_agree_span) (simp_all add: plain_char_def)
  then show ?thesis using ItalicSpan by (simp add: markup_def)
qed

lemma runs_agree_items: "list_all item_ok items \<Longrightarrow> runs_agree (markup items) (item_runs items)"
proof (induction items)
  case Nil
  show ?case by (simp add: runs_agree_def markup_def)
next
  case (Cons i items)
  then show ?case by (simp add: runs_agree_item)
qed

lemma markup_of_not_Nil: "item_ok i \<Longrightarrow> markup_of i \<noteq> []"
  by (cases i) (simp_all add: span_bodyD)

lemma markup_Nil_iff: "list_all item_ok items \<Longrightarrow> markup items = [] \<longleftrightarrow> items = []"
  by (cases items) (simp_all add: markup_def markup_of_not_Nil)

lemma add_plain_not_Nil: "add_plain t runs \<noteq> []"
  by (cases runs) simp_all

lemma item_runs_Nil_iff: "item_runs items = [] \<longleftrightarrow> items = []"
  by (induction items rule: item_runs.induct) (simp_all add: add_plain_not_Nil)

lemma runs_items:
  assumes "well_delimited items"
  shows "parseInlineMarkdown (markup items)
       = (if items = [] then [\<lparr>run_text = [], run_style = Plain\<rparr>] else item_runs items)"
proof -
  from assms have ok: "list_all item_ok items" by (rule well_delimited_items)
  from runs_agree_items [OF ok] have "inline_runs (markup items) = item_runs items"
    by (simp add: runs_agree_def)
  then show ?thesis
    by (simp add: parseInlineMarkdown_def Let_def markup_Nil_iff [OF ok] item_runs_Nil_iff)
qed

lemma runs_to_html_add_plain:
  "runs_to_html (add_plain t runs) = escape_html t @ runs_to_html runs"
  by (cases runs) (simp_all add: runs_to_html_def run_to_html_def escape_html_append)

lemma runs_to_html_items:
  "runs_to_html (item_runs items) = concat (map item_html (map visible items))"
proof (induction items rule: item_runs.induct)
  case 1
  show ?case by (simp add: runs_to_html_def)
qed (simp_all add: runs_to_html_add_plain, simp_all add: runs_to_html_def run_to_html_def)

lemma well_delimited_visible: "well_delimited items \<Longrightarrow> well_delimited (map visible items)"
proof (induction items rule: well_delimited.induct)
  case 1
  show ?case by simp
next
  case (2 i)
  then show ?case by (cases i) simp_all
next
  case (3 i j items)
  have "item_ok (visible i)" using 3 by (cases i) simp_all
  moreover have "is_italic (visible i) = is_italic i" "is_italic (visible j) = is_italic j"
    by (cases i; simp) (cases j; simp)
  ultimately show ?case using 3 by simp
qed

lemma visible_no_link: "\<forall>i \<in> set items. \<not> is_link i \<Longrightarrow> map visible items = items"
proof (induction items)
  case Nil
  show ?case by simp
next
  case (Cons i items)
  then show ?case by (cases i) simp_all
qed

text \<open>
  C6, as the code has it, for every well-delimited sequence of plain text, links and code,
  bold and italic spans. \<open>parseInlineMarkdown\<close> gives the runs of the sequence: of a link
  it keeps the visible text only, within the plain run around it. \<open>inlineMarkdownToHtml\<close>
  gives the elements of the sequence: of a link it makes the anchor, which keeps the
  destination. The runs, written as markup, are the HTML of the text whose links are
  replaced by their visible text; so the two representations have the same segments with
  the same styles and texts in the same order, and are the same when the text has no link.
\<close>

theorem inline_markup_representations:
  assumes "well_delimited items"
  shows "parseInlineMarkdown (markup items)
       = (if items = [] then [\<lparr>run_text = [], run_style = Plain\<rparr>] else item_runs items)
    \<and> inlineMarkdownToHtml (markup items) = concat (map item_html items)
    \<and> runs_to_html (parseInlineMarkdown (markup items))
       = inlineMarkdownToHtml (markup (map visible items))
    \<and> (list_all (\<lambda>i. \<not> is_link i) items \<longrightarrow>
         runs_to_html (parseInlineMarkdown (markup items)) = inlineMarkdownToHtml (markup items))"
proof -
  note runs = runs_items [OF assms]
  note html = html_items [OF assms]
  have "runs_to_html (parseInlineMarkdown (markup items)) = concat (map item_html (map visible items))"
  proof (cases "items = []")
    case True
    with runs have "parseInlineMarkdown (markup items) = [\<lparr>run_text = [], run_style = Plain\<rparr>]"
      by simp
    with True show ?thesis
      by (simp add: runs_to_html_def run_to_html_def escape_html_def replace_char_def)
  next
    case False
    then show ?thesis by (simp only: runs if_False runs_to_html_items)
  qed
  with html_items [OF well_delimited_visible [OF assms]]
  have eq: "runs_to_html (parseInlineMarkdown (markup items))
       = inlineMarkdownToHtml (markup (map visible items))"
    by simp
  have "runs_to_html (parseInlineMarkdown (markup items)) = inlineMarkdownToHtml (markup items)"
    if "list_all (\<lambda>i. \<not> is_link i) items"
  proof -
    from that have "map visible items = items"
      by (intro visible_no_link) (simp add: list_all_iff)
    with eq show ?thesis by simp
  qed
  with runs html eq show ?thesis by blast
qed

lemma example_items_values:
  "well_delimited example_items"
  "markup example_items = ''See `config.yml` and **danger** in [the docs](http://x/?a=1&b=2)*now* (a < b)''"
  "item_runs example_items
     = [\<lparr>run_text = ''See '', run_style = Plain\<rparr>, \<lparr>run_text = ''config.yml'', run_style = Code\<rparr>,
        \<lparr>run_text = '' and '', run_style = Plain\<rparr>, \<lparr>run_text = ''danger'', run_style = Bold\<rparr>,
        \<lparr>run_text = '' in the docs'', run_style = Plain\<rparr>, \<lparr>run_text = ''now'', run_style = Italic\<rparr>,
        \<lparr>run_text = '' (a < b)'', run_style = Plain\<rparr>]"
  "concat (map item_html example_items)
     = ''See <code>config.yml</code> and <strong>danger</strong> in ''
       @ anchor ''the docs'' ''http://x/?a=1&amp;b=2'' @ ''<em>now</em> (a &lt; b)''"
  "markup (map visible example_items) = ''See `config.yml` and **danger** in the docs*now* (a < b)''"
  by code_simp+

lemma scenario_items_values:
  "well_delimited scenario_items"
  "list_all (\<lambda>i. \<not> is_link i) scenario_items"
  "markup scenario_items = ''See `config.yml` and **danger**''"
  by code_simp+

theorem inline_markup_representations_witness:
  "well_delimited example_items
   \<and> parseInlineMarkdown ''See `config.yml` and **danger** in [the docs](http://x/?a=1&b=2)*now* (a < b)''
     = [\<lparr>run_text = ''See '', run_style = Plain\<rparr>, \<lparr>run_text = ''config.yml'', run_style = Code\<rparr>,
        \<lparr>run_text = '' and '', run_style = Plain\<rparr>, \<lparr>run_text = ''danger'', run_style = Bold\<rparr>,
        \<lparr>run_text = '' in the docs'', run_style = Plain\<rparr>, \<lparr>run_text = ''now'', run_style = Italic\<rparr>,
        \<lparr>run_text = '' (a < b)'', run_style = Plain\<rparr>]
   \<and> inlineMarkdownToHtml ''See `config.yml` and **danger** in [the docs](http://x/?a=1&b=2)*now* (a < b)''
     = ''See <code>config.yml</code> and <strong>danger</strong> in ''
       @ anchor ''the docs'' ''http://x/?a=1&amp;b=2'' @ ''<em>now</em> (a &lt; b)''
   \<and> runs_to_html (parseInlineMarkdown
         ''See `config.yml` and **danger** in [the docs](http://x/?a=1&b=2)*now* (a < b)'')
     = inlineMarkdownToHtml ''See `config.yml` and **danger** in the docs*now* (a < b)''
   \<and> well_delimited scenario_items
   \<and> list_all (\<lambda>i. \<not> is_link i) scenario_items
   \<and> runs_to_html (parseInlineMarkdown ''See `config.yml` and **danger**'')
     = inlineMarkdownToHtml ''See `config.yml` and **danger**''"
proof -
  note e = example_items_values and s = scenario_items_values
  note t = inline_markup_representations [OF e(1)]
  note u = inline_markup_representations [OF s(1)]
  have ne: "example_items \<noteq> []" by (simp add: example_items_def)
  from t [THEN conjunct1] ne
  have c1: "parseInlineMarkdown (markup example_items) = item_runs example_items" by simp
  note c2 = t [THEN conjunct2, THEN conjunct1]
  note c3 = t [THEN conjunct2, THEN conjunct2, THEN conjunct1]
  note c4 = mp [OF u [THEN conjunct2, THEN conjunct2, THEN conjunct2] s(2)]
  from c1 c2 c3 c4 e(1) s(1) s(2) show ?thesis
    by (simp only: e(2) e(3) e(4) e(5) s(3))
qed

text \<open>
  C6 as the specification words it has both representations drop the destination of a link
  and carry the same content. The HTML of a link holds the destination and the runs do not.
\<close>

theorem link_destination_counterexample:
  "inlineMarkdownToHtml ''[docs](http://x)'' = anchor ''docs'' ''http://x''
   \<and> sublist ''http://x'' (inlineMarkdownToHtml ''[docs](http://x)'')
   \<and> parseInlineMarkdown ''[docs](http://x)'' = [\<lparr>run_text = ''docs'', run_style = Plain\<rparr>]
   \<and> runs_to_html (parseInlineMarkdown ''[docs](http://x)'') = ''docs''
   \<and> runs_to_html (parseInlineMarkdown ''[docs](http://x)'') \<noteq> inlineMarkdownToHtml ''[docs](http://x)''"
  by code_simp

lemma markup_scenario:
  "inlineMarkdownToHtml ''See `config.yml` and **danger**''
     = ''See <code>config.yml</code> and <strong>danger</strong>''"
  "parseInlineMarkdown ''See `config.yml` and **danger**''
     = [\<lparr>run_text = ''See '', run_style = Plain\<rparr>, \<lparr>run_text = ''config.yml'', run_style = Code\<rparr>,
        \<lparr>run_text = '' and '', run_style = Plain\<rparr>, \<lparr>run_text = ''danger'', run_style = Bold\<rparr>]"
  by code_simp+

text \<open>
  Texts that are not well delimited are outside the theorem, and on some of them the two
  functions part: an asterisk or a backtick that opens no span is dropped from the runs
  and kept in the HTML; a link inside a span is an anchor in the HTML and raw markup in
  the run; three italic spans in a row are three italic runs, and in the HTML one italic
  element around a bold one.
\<close>

lemma outside_well_delimited:
  "inlineMarkdownToHtml ''2 * 3'' = ''2 * 3''"
  "parseInlineMarkdown ''2 * 3''
     = [\<lparr>run_text = ''2 '', run_style = Plain\<rparr>, \<lparr>run_text = '' 3'', run_style = Plain\<rparr>]"
  "inlineMarkdownToHtml ''**[a](b)**'' = ''<strong>'' @ anchor ''a'' ''b'' @ ''</strong>''"
  "parseInlineMarkdown ''**[a](b)**'' = [\<lparr>run_text = ''[a](b)'', run_style = Bold\<rparr>]"
  "inlineMarkdownToHtml ''*a**b**c*'' = ''<em>a<strong>b</strong>c</em>''"
  "parseInlineMarkdown ''*a**b**c*''
     = [\<lparr>run_text = ''a'', run_style = Italic\<rparr>, \<lparr>run_text = ''b'', run_style = Italic\<rparr>,
        \<lparr>run_text = ''c'', run_style = Italic\<rparr>]"
  by code_simp+


end
